theory Spec2Isabelle
  imports Complex_Main "HOL-Library.List_Lexorder"
begin

section \<open>Template scanning (html_generator.py)\<close>

text \<open>
  A Python \<open>str\<close> is a sequence of Unicode code points: text is a list of natural
  numbers, and Python's ordering of strings is the lexicographic order of
  \<open>HOL-Library.List_Lexorder\<close> over the code points. \<open>cp\<close> is the code point of an ASCII
  character and \<open>ustr\<close> the text of an ASCII literal.
\<close>

type_synonym ustring = "nat list"

definition cp :: "char \<Rightarrow> nat" where
  "cp c = of_char c"

definition ustr :: "char list \<Rightarrow> ustring" where
  "ustr s = map cp s"

lemma cp_eq_iff [simp]: "cp c = cp d \<longleftrightarrow> c = d"
  by (simp add: cp_def)

lemma ustr_Nil [simp]: "ustr [] = []"
  by (simp add: ustr_def)

lemma ustr_Cons [simp]: "ustr (c # cs) = cp c # ustr cs"
  by (simp add: ustr_def)

text \<open>The state of the template path on disk, as \<open>open(...).read()\<close> sees it.\<close>

datatype template_file = Missing | Unreadable | Content ustring

text \<open>\<open>SYSTEM_VARIABLES\<close>: the keys the script provides by itself.\<close>

definition SYSTEM_VARIABLES :: "ustring set" where
  "SYSTEM_VARIABLES = {ustr ''timestamp'', ustr ''case_number'', ustr ''logo_filename''}"

text \<open>The character class \<open>[a-zA-Z0-9_]\<close>.\<close>

definition ident_char :: "nat \<Rightarrow> bool" where
  "ident_char c \<longleftrightarrow>
     c \<in> set (ustr ''abcdefghijklmnopqrstuvwxyzABCDEFGHIJKLMNOPQRSTUVWXYZ0123456789_'')"

lemma ident_char_not_delim [simp]:
  "\<not> ident_char (cp CHR ''$'')" "\<not> ident_char (cp CHR ''{'')" "\<not> ident_char (cp CHR ''}'')"
  by (simp_all add: ident_char_def)

text \<open>
  One attempt of the pattern \<open>\$\{([a-zA-Z0-9_]+)\}\<close> at the head of the text: the group
  and the text after the match. The greedy \<open>+\<close> takes the longest run of identifier
  characters; a shorter run is followed by an identifier character, never by the closing
  brace, so backtracking finds nothing more.
\<close>

definition match_placeholder :: "ustring \<Rightarrow> (ustring \<times> ustring) option" where
  "match_placeholder s =
     (case s of
        c1 # c2 # r \<Rightarrow>
          (if c1 = cp CHR ''$'' \<and> c2 = cp CHR ''{'' then
             (let v = takeWhile ident_char r; r' = dropWhile ident_char r in
              (case r' of
                 c3 # rest \<Rightarrow> if v \<noteq> [] \<and> c3 = cp CHR ''}'' then Some (v, rest) else None
               | [] \<Rightarrow> None))
           else None)
      | _ \<Rightarrow> None)"

lemma match_placeholder_shorter:
  "match_placeholder s = Some (v, rest) \<Longrightarrow> length rest < length s"
proof -
  assume m: "match_placeholder s = Some (v, rest)"
  then obtain r where s: "s = cp CHR ''$'' # cp CHR ''{'' # r"
    by (auto simp: match_placeholder_def split: list.splits if_splits)
  from m s have "dropWhile ident_char r = cp CHR ''}'' # rest"
    by (auto simp: match_placeholder_def Let_def split: list.splits if_splits)
  then have "length rest < length (dropWhile ident_char r)" by simp
  also have "\<dots> \<le> length r" by (rule length_dropWhile_le)
  finally show ?thesis using s by simp
qed

text \<open>
  \<open>re.findall\<close>: the groups of the non-overlapping matches, from left to right. After a
  match the scan goes on behind it; where the pattern fails the scan moves one character.
\<close>

function findall :: "ustring \<Rightarrow> ustring list" where
  "findall [] = []"
| "findall (c # cs) =
     (case match_placeholder (c # cs) of
        Some (v, rest) \<Rightarrow> v # findall rest
      | None \<Rightarrow> findall cs)"
  by pat_completeness auto
termination
  by (relation "measure length") (auto dest: match_placeholder_shorter)

text \<open>
  \<open>get_template_variables\<close>: a missing file and a failing read both give the empty list;
  otherwise the found names become a set, the system variables are taken out, and the
  rest is returned sorted.
\<close>

definition get_template_variables :: "template_file \<Rightarrow> ustring list" where
  "get_template_variables f =
     (case f of
        Missing \<Rightarrow> []
      | Unreadable \<Rightarrow> []
      | Content content \<Rightarrow>
          (let found_vars = findall content;
               ai_required_vars = set found_vars - SYSTEM_VARIABLES
           in sorted_list_of_set ai_required_vars))"

text \<open>
  The specification's reading of ``occurs in the text as \<open>${identifier}\<close>'': the text
  contains the three delimiters around a non-empty word over the identifier characters.
\<close>

definition occurs_as_placeholder :: "ustring \<Rightarrow> ustring \<Rightarrow> bool" where
  "occurs_as_placeholder content v \<longleftrightarrow>
     v \<noteq> [] \<and> (\<forall>c \<in> set v. ident_char c) \<and>
     (\<exists>pre post. content = pre @ ustr ''${'' @ v @ ustr ''}'' @ post)"

section \<open>JSON values and their rendering (html_generator.py)\<close>

text \<open>
  The values \<open>json.load\<close> produces. A float is carried by its \<open>str()\<close> rendering, the only
  thing the program reads of it besides its truth value: a float is falsy exactly when it
  is a zero, which renders as \<open>0.0\<close> or \<open>-0.0\<close>. A dict is the list of its items in
  insertion order; its keys are distinct.
\<close>

datatype json =
    JNull
  | JBool bool
  | JInt int
  | JFloat ustring
  | JStr ustring
  | JList "json list"
  | JDict "(ustring \<times> json) list"

text \<open>\<open>sep.join(parts)\<close>.\<close>

fun join :: "ustring \<Rightarrow> ustring list \<Rightarrow> ustring" where
  "join sep [] = []"
| "join sep [x] = x"
| "join sep (x # y # ys) = x @ sep @ join sep (y # ys)"

text \<open>\<open>str()\<close> of an integer: decimal digits, with a minus sign below zero.\<close>

definition digit_char :: "nat \<Rightarrow> nat" where
  "digit_char d = ustr ''0123456789'' ! d"

fun str_nat :: "nat \<Rightarrow> ustring" where
  "str_nat n = (if n < 10 then [digit_char n] else str_nat (n div 10) @ [digit_char (n mod 10)])"

declare str_nat.simps [simp del]

definition str_int :: "int \<Rightarrow> ustring" where
  "str_int i = (if i < 0 then cp CHR ''-'' # str_nat (nat (- i)) else str_nat (nat i))"

text \<open>
  \<open>repr()\<close> of a value. Python's quoting of a string (the choice of the quote, the escapes,
  the treatment of unprintable code points) is not modelled: it is the parameter
  \<open>repr_str\<close>.
\<close>

fun py_repr :: "(ustring \<Rightarrow> ustring) \<Rightarrow> json \<Rightarrow> ustring" where
  "py_repr repr_str JNull = ustr ''None''"
| "py_repr repr_str (JBool b) = (if b then ustr ''True'' else ustr ''False'')"
| "py_repr repr_str (JInt i) = str_int i"
| "py_repr repr_str (JFloat s) = s"
| "py_repr repr_str (JStr s) = repr_str s"
| "py_repr repr_str (JList xs) = ustr ''['' @ join (ustr '', '') (map (py_repr repr_str) xs) @ ustr '']''"
| "py_repr repr_str (JDict kvs) =
     ustr ''{'' @ join (ustr '', '') (map (\<lambda>(k, v). repr_str k @ ustr '': '' @ py_repr repr_str v) kvs) @ ustr ''}''"

text \<open>\<open>str()\<close>: a string is itself, everything else is its \<open>repr()\<close>.\<close>

definition py_str :: "(ustring \<Rightarrow> ustring) \<Rightarrow> json \<Rightarrow> ustring" where
  "py_str repr_str v = (case v of JStr s \<Rightarrow> s | _ \<Rightarrow> py_repr repr_str v)"

text \<open>
  Python's \<open>repr\<close> of a string that holds no quote, no backslash and no unprintable
  character: the string between single quotes. It stands for \<open>repr_str\<close> where a concrete
  value is computed.
\<close>

definition quote_plain :: "ustring \<Rightarrow> ustring" where
  "quote_plain s = [39] @ s @ [39]"

text \<open>The truth value of a value in \<open>if v\<close>.\<close>

fun truthy :: "json \<Rightarrow> bool" where
  "truthy JNull = False"
| "truthy (JBool b) = b"
| "truthy (JInt i) = (i \<noteq> 0)"
| "truthy (JFloat s) = (s \<noteq> ustr ''0.0'' \<and> s \<noteq> ustr ''-0.0'')"
| "truthy (JStr s) = (s \<noteq> [])"
| "truthy (JList xs) = (xs \<noteq> [])"
| "truthy (JDict kvs) = (kvs \<noteq> [])"

text \<open>\<open>_format_value\<close>, in the order of its tests: list, dict, \<open>None\<close>, anything else.\<close>

fun format_value :: "(ustring \<Rightarrow> ustring) \<Rightarrow> json \<Rightarrow> ustring" where
  "format_value repr_str (JList xs) = join (ustr '', '') (map (format_value repr_str) xs)"
| "format_value repr_str (JDict kvs) =
     join (ustr '', '') (map (py_str repr_str) (filter truthy (map snd kvs)))"
| "format_value repr_str JNull = ustr ''N/A''"
| "format_value repr_str v = py_str repr_str v"

section \<open>Template substitution (string.Template, html_generator.py)\<close>

text \<open>The exceptions the model distinguishes.\<close>

datatype py_error = ValueError | AttributeError | OSError

text \<open>
  \<open>string.Template\<close> compiles, with \<open>re.IGNORECASE\<close>, the pattern
  \<^verbatim>\<open>\$(?:(?P<escaped>\$) | (?P<named>id) | {(?P<braced>id)} | (?P<invalid>))\<close>
  where \<open>id\<close> is \<open>(?a:[_a-z][_a-z0-9]*)\<close>: a letter or an underscore, then the characters
  of \<open>[a-zA-Z0-9_]\<close>. A match object is its whole text and its four named groups.
\<close>

record match_object =
  group0 :: ustring
  escaped :: "ustring option"
  named :: "ustring option"
  braced :: "ustring option"
  invalid :: "ustring option"

definition no_groups :: match_object where
  "no_groups = \<lparr>group0 = [], escaped = None, named = None, braced = None, invalid = None\<rparr>"

definition id_start :: "nat \<Rightarrow> bool" where
  "id_start c \<longleftrightarrow> c \<in> set (ustr ''abcdefghijklmnopqrstuvwxyzABCDEFGHIJKLMNOPQRSTUVWXYZ_'')"

text \<open>The match objects of the four alternatives.\<close>

definition mo_escaped :: match_object where
  "mo_escaped = no_groups\<lparr>group0 := ustr ''$$'', escaped := Some (ustr ''$'')\<rparr>"

definition mo_named :: "ustring \<Rightarrow> match_object" where
  "mo_named v = no_groups\<lparr>group0 := cp CHR ''$'' # v, named := Some v\<rparr>"

definition mo_braced :: "ustring \<Rightarrow> match_object" where
  "mo_braced v = no_groups\<lparr>group0 := ustr ''${'' @ v @ ustr ''}'', braced := Some v\<rparr>"

definition mo_invalid :: match_object where
  "mo_invalid = no_groups\<lparr>group0 := ustr ''$'', invalid := Some []\<rparr>"

text \<open>
  The braced alternative behind \<open>${\<close>: the longest run of identifier characters, which
  must be an identifier and be followed by the closing brace; the result is the
  identifier and the text behind the brace.
\<close>

definition match_braced :: "ustring \<Rightarrow> (ustring \<times> ustring) option" where
  "match_braced cs =
     (let v = takeWhile ident_char cs in
      case dropWhile ident_char cs of
        c' # rest \<Rightarrow> if v \<noteq> [] \<and> id_start (hd v) \<and> c' = cp CHR ''}'' then Some (v, rest) else None
      | [] \<Rightarrow> None)"

text \<open>
  The pattern at a delimiter, given the text \<open>r\<close> behind the \<open>$\<close>: the alternatives in
  their order, with the match object and the text behind the match. The last alternative
  is empty, so the pattern matches at every delimiter.
\<close>

definition match_delimiter :: "ustring \<Rightarrow> match_object \<times> ustring" where
  "match_delimiter r =
     (case r of
        [] \<Rightarrow> (mo_invalid, r)
      | c # cs \<Rightarrow>
          if c = cp CHR ''$'' then (mo_escaped, cs)
          else if id_start c then (mo_named (takeWhile ident_char r), dropWhile ident_char r)
          else if c = cp CHR ''{'' then
            (case match_braced cs of
               Some (v, rest) \<Rightarrow> (mo_braced v, rest)
             | None \<Rightarrow> (mo_invalid, r))
          else (mo_invalid, r))"

lemma dropWhile_Cons_shorter:
  "dropWhile P xs = y # ys \<Longrightarrow> length ys < length xs"
proof -
  assume "dropWhile P xs = y # ys"
  then have "Suc (length ys) = length (dropWhile P xs)" by simp
  also have "\<dots> \<le> length xs" by (rule length_dropWhile_le)
  finally show ?thesis by simp
qed

lemma match_braced_Some_iff:
  "match_braced cs = Some (v, rest) \<longleftrightarrow>
     (v \<noteq> [] \<and> id_start (hd v) \<and> (\<forall>c\<in>set v. ident_char c) \<and> cs = v @ cp CHR ''}'' # rest)"
proof
  assume m: "match_braced cs = Some (v, rest)"
  then have v: "v = takeWhile ident_char cs" and ne: "v \<noteq> []" "id_start (hd v)"
    and d: "dropWhile ident_char cs = cp CHR ''}'' # rest"
    by (auto simp: match_braced_def Let_def split: list.splits if_splits)
  have "cs = takeWhile ident_char cs @ dropWhile ident_char cs" by simp
  with v d have "cs = v @ cp CHR ''}'' # rest" by simp
  moreover from v have "\<forall>c\<in>set v. ident_char c" by (auto dest: set_takeWhileD)
  ultimately show "v \<noteq> [] \<and> id_start (hd v) \<and> (\<forall>c\<in>set v. ident_char c) \<and> cs = v @ cp CHR ''}'' # rest"
    using ne by simp
next
  assume a: "v \<noteq> [] \<and> id_start (hd v) \<and> (\<forall>c\<in>set v. ident_char c) \<and> cs = v @ cp CHR ''}'' # rest"
  then have tw: "takeWhile ident_char (v @ cp CHR ''}'' # rest) = v"
    and dw: "dropWhile ident_char (v @ cp CHR ''}'' # rest) = cp CHR ''}'' # rest"
    by (simp_all add: takeWhile_append2 dropWhile_append2)
  from a show "match_braced cs = Some (v, rest)"
    by (simp add: match_braced_def Let_def tw dw)
qed

lemma match_delimiter_length:
  "match_delimiter r = (mo, rest) \<Longrightarrow> length rest \<le> length r"
  by (cases r)
    (auto simp: match_delimiter_def match_braced_Some_iff length_dropWhile_le
      split: if_splits option.splits intro: le_SucI)

text \<open>
  What \<open>pattern.sub\<close> walks over: the characters outside the matches, and the matches,
  from left to right.
\<close>

datatype token = Lit nat | Match match_object

function template_tokens :: "ustring \<Rightarrow> token list" where
  "template_tokens [] = []"
| "template_tokens (c # cs) =
     (if c = cp CHR ''$'' then
        (case match_delimiter cs of (mo, rest) \<Rightarrow> Match mo # template_tokens rest)
      else Lit c # template_tokens cs)"
  by pat_completeness auto
termination
  by (relation "measure length") (auto dest: match_delimiter_length [OF sym])

text \<open>
  The helper \<open>convert\<close> of \<open>safe_substitute\<close>: \<open>mo.group('named') or mo.group('braced')\<close>
  picks the name, a name missing from the mapping gives back the matched text, and a
  match with none of the four groups raises \<open>ValueError\<close>.
\<close>

definition convert :: "(ustring \<rightharpoonup> ustring) \<Rightarrow> match_object \<Rightarrow> py_error + ustring" where
  "convert mapping mo =
     (let nm = (case named mo of
                  Some n \<Rightarrow> if n \<noteq> [] then Some n else braced mo
                | None \<Rightarrow> braced mo)
      in case nm of
           Some n \<Rightarrow> (case mapping n of Some v \<Rightarrow> Inr v | None \<Rightarrow> Inr (group0 mo))
         | None \<Rightarrow>
             if escaped mo \<noteq> None then Inr (ustr ''$'')
             else if invalid mo \<noteq> None then Inr (group0 mo)
             else Inl ValueError)"

text \<open>Joining the pieces; the first exception of \<open>convert\<close> ends the substitution.\<close>

fun substitute_tokens :: "(ustring \<rightharpoonup> ustring) \<Rightarrow> token list \<Rightarrow> py_error + ustring" where
  "substitute_tokens mapping [] = Inr []"
| "substitute_tokens mapping (Lit c # ts) =
     (case substitute_tokens mapping ts of Inl e \<Rightarrow> Inl e | Inr out \<Rightarrow> Inr (c # out))"
| "substitute_tokens mapping (Match mo # ts) =
     (case convert mapping mo of
        Inl e \<Rightarrow> Inl e
      | Inr v \<Rightarrow>
          (case substitute_tokens mapping ts of Inl e \<Rightarrow> Inl e | Inr out \<Rightarrow> Inr (v @ out)))"

definition safe_substitute :: "(ustring \<rightharpoonup> ustring) \<Rightarrow> ustring \<Rightarrow> py_error + ustring" where
  "safe_substitute mapping template_str = substitute_tokens mapping (template_tokens template_str)"

text \<open>
  \<open>generate_html_content\<close>. The two readings of the clock are parameters: the formatted
  timestamp and the \<open>%H%M\<close> digits of the case number. The values of a dict are formatted
  into the context in the order of its items; anything that is not a dict adds nothing.
\<close>

definition build_context ::
  "(ustring \<Rightarrow> ustring) \<Rightarrow> ustring \<Rightarrow> ustring \<Rightarrow> json \<Rightarrow> (ustring \<rightharpoonup> ustring)" where
  "build_context repr_str timestamp hhmm company_info =
     (let context = [ustr ''timestamp'' \<mapsto> timestamp, ustr ''case_number'' \<mapsto> ustr ''OP-D-V-'' @ hhmm]
      in case company_info of
           JDict kvs \<Rightarrow> fold (\<lambda>(key, val) ctx. ctx(key \<mapsto> format_value repr_str val)) kvs context
         | _ \<Rightarrow> context)"

text \<open>
  The result is the substituted text, or the error page that the \<open>except\<close> branch builds
  from the template path and the exception.
\<close>

datatype html_result = Rendered ustring | ErrorPage py_error

definition generate_html_content ::
  "(ustring \<Rightarrow> ustring) \<Rightarrow> ustring \<Rightarrow> ustring \<Rightarrow> template_file \<Rightarrow> json \<Rightarrow> html_result" where
  "generate_html_content repr_str timestamp hhmm template company_info =
     (let context = build_context repr_str timestamp hhmm company_info
      in case template of
           Missing \<Rightarrow> ErrorPage OSError
         | Unreadable \<Rightarrow> ErrorPage OSError
         | Content template_str \<Rightarrow>
             (case safe_substitute context template_str of
                Inl e \<Rightarrow> ErrorPage e
              | Inr html \<Rightarrow> Rendered html))"

section \<open>Company profiles (companies_profile.py)\<close>

subsection \<open>The world outside the program\<close>

text \<open>
  An HTTP request ends in a response, with its status code and the value \<open>response.json()\<close>
  gives (\<open>None\<close> when the body is not JSON), or in an exception of \<open>requests.post\<close>.
\<close>

datatype http_result = Response nat "json option" | RequestException

datatype request_body = TestBody | PromptBody ustring

text \<open>A file of the output directory.\<close>

datatype file_content = Json json | Html html_result | Text ustring | Binary

text \<open>What the program does to the world, in the order it does it.\<close>

datatype log_msg =
    Phase0 | FieldsFound nat | NoVariables
  | Phase1 | AISearching ustring | DataSaved | AIFailed | Cooldown
  | Phase2 | LogoExists ustring | SearchingLogo ustring | LogoDownloaded | DownloadFailed
  | NoImageFound
  | Phase3 | BuiltHtml ustring | HtmlError
  | Phase4 | PipelineComplete | PdfErrors

datatype signal = Log log_msg | Progress int | Finished | Error

datatype event =
    HttpPost ustring request_body
  | Sleep nat
  | WriteData ustring
  | ImageSearch ustring
  | Download ustring
  | WriteHtml ustring
  | RenderPdf ustring
  | Emit signal

text \<open>
  The world: what the environment answers (the result of the \<open>n\<close>-th HTTP request, the
  value of the \<open>is_running\<close> flag at its \<open>n\<close>-th reading, the logo finder, the PDF
  renderer), the files of the output directory in the order the directory lists them,
  and the trace of what has been done. Creating the output directory and writing a file
  into it are taken to succeed.
\<close>

record world =
  http_responses :: "nat \<Rightarrow> http_result"
  n_posts :: nat
  dir_exists :: bool
  files :: "(ustring \<times> file_content) list"
  trace :: "event list"

definition do_event :: "event \<Rightarrow> 'a world_scheme \<Rightarrow> 'a world_scheme" where
  "do_event e w = w\<lparr>trace := trace w @ [e]\<rparr>"

text \<open>\<open>Path(output_dir).mkdir(exist_ok=True)\<close>.\<close>

definition mkdir :: "'a world_scheme \<Rightarrow> 'a world_scheme" where
  "mkdir w = w\<lparr>dir_exists := True\<rparr>"

text \<open>\<open>requests.post\<close>: the next answer of the environment.\<close>

definition requests_post :: "ustring \<Rightarrow> request_body \<Rightarrow> 'a world_scheme \<Rightarrow> http_result \<times> 'a world_scheme" where
  "requests_post url body w =
     (http_responses w (n_posts w),
      do_event (HttpPost url body) (w\<lparr>n_posts := Suc (n_posts w)\<rparr>))"

text \<open>Writing a file: an existing file is replaced where it stands, a new one is added.\<close>

fun write_file ::
  "ustring \<Rightarrow> file_content \<Rightarrow> (ustring \<times> file_content) list \<Rightarrow> (ustring \<times> file_content) list" where
  "write_file name content [] = [(name, content)]"
| "write_file name content ((n, c) # fs) =
     (if n = name then (name, content) # fs else (n, c) # write_file name content fs)"

subsection \<open>The generator and the Gemini API\<close>

record generator =
  api_key :: ustring
  working_model :: "ustring option"

definition models :: "ustring list" where
  "models = [ustr ''gemini-2.5-flash'']"

definition model_url :: "ustring \<Rightarrow> ustring" where
  "model_url model =
     ustr ''https://generativelanguage.googleapis.com/v1beta/models/'' @ model
       @ ustr '':generateContent''"

text \<open>
  The constructor: \<open>api_key or os.getenv('GEMINI_API_KEY')\<close>, and \<open>ValueError\<close> when both
  are missing or empty.
\<close>

definition new_generator :: "ustring option \<Rightarrow> ustring option \<Rightarrow> py_error + generator" where
  "new_generator key env_key =
     (let k = (case key of
                 Some s \<Rightarrow> if s \<noteq> [] then Some s else env_key
               | None \<Rightarrow> env_key)
      in case k of
           Some s \<Rightarrow> if s \<noteq> [] then Inr \<lparr>api_key = s, working_model = None\<rparr> else Inl ValueError
         | None \<Rightarrow> Inl ValueError)"

text \<open>
  \<open>find_working_model\<close>: one test request per model; the first model that answers 200
  becomes the working model. Another status and an exception go on with the next model.
\<close>

fun find_working_model_loop ::
  "ustring list \<Rightarrow> generator \<Rightarrow> 'a world_scheme \<Rightarrow> ustring option \<times> generator \<times> 'a world_scheme" where
  "find_working_model_loop [] gen w = (None, gen, w)"
| "find_working_model_loop (model # ms) gen w =
     (case requests_post (model_url model @ ustr ''?key='' @ api_key gen) TestBody w of
        (Response status_code body, w') \<Rightarrow>
          if status_code = 200 then (Some (model_url model), gen\<lparr>working_model := Some model\<rparr>, w')
          else find_working_model_loop ms gen w'
      | (RequestException, w') \<Rightarrow> find_working_model_loop ms gen w')"

definition find_working_model ::
  "generator \<Rightarrow> 'a world_scheme \<Rightarrow> ustring option \<times> generator \<times> 'a world_scheme" where
  "find_working_model gen w = find_working_model_loop models gen w"

text \<open>
  Subscripting as \<open>response.json()['candidates'][0]['content']['parts'][0]['text']\<close> does
  it; \<open>None\<close> stands for the exception of a missing key, an empty list or a value of the
  wrong type. The first character of a string is a string.
\<close>

definition getitem_key :: "ustring \<Rightarrow> json \<Rightarrow> json option" where
  "getitem_key k v = (case v of JDict kvs \<Rightarrow> map_of kvs k | _ \<Rightarrow> None)"

definition getitem_0 :: "json \<Rightarrow> json option" where
  "getitem_0 v =
     (case v of
        JList (x # xs) \<Rightarrow> Some x
      | JStr (c # cs) \<Rightarrow> Some (JStr [c])
      | _ \<Rightarrow> None)"

definition extract_text :: "json option \<Rightarrow> json option" where
  "extract_text body =
     Option.bind body (\<lambda>j.
     Option.bind (getitem_key (ustr ''candidates'') j) (\<lambda>cands.
     Option.bind (getitem_0 cands) (\<lambda>cand.
     Option.bind (getitem_key (ustr ''content'') cand) (\<lambda>content.
     Option.bind (getitem_key (ustr ''parts'') content) (\<lambda>parts.
     Option.bind (getitem_0 parts) (\<lambda>part.
     getitem_key (ustr ''text'') part))))))"

text \<open>
  The loop \<open>for attempt in range(3)\<close> of \<open>query_gemini\<close>, over the attempts still to make:
  200 returns the extracted text (\<open>None\<close> when the extraction raises), 429 sleeps 20
  seconds and goes on, anything else returns \<open>None\<close>; so does the end of the loop.
\<close>

fun attempts ::
  "nat list \<Rightarrow> ustring \<Rightarrow> ustring \<Rightarrow> 'a world_scheme \<Rightarrow> json option \<times> 'a world_scheme" where
  "attempts [] url prompt w = (None, w)"
| "attempts (attempt # rest) url prompt w =
     (case requests_post url (PromptBody prompt) w of
        (Response status_code body, w') \<Rightarrow>
          if status_code = 200 then (extract_text body, w')
          else if status_code = 429 then attempts rest url prompt (do_event (Sleep 20) w')
          else (None, w')
      | (RequestException, w') \<Rightarrow> (None, w'))"

definition query_gemini ::
  "generator \<Rightarrow> ustring \<Rightarrow> 'a world_scheme \<Rightarrow> json option \<times> generator \<times> 'a world_scheme" where
  "query_gemini gen prompt w =
     (case working_model gen of
        None \<Rightarrow>
          (case find_working_model gen w of
             (None, gen', w') \<Rightarrow> (None, gen', w')
           | (Some base_url, gen', w') \<Rightarrow>
               (case attempts [0, 1, 2] (base_url @ ustr ''?key='' @ api_key gen') prompt w' of
                  (res, w'') \<Rightarrow> (res, gen', w'')))
      | Some m \<Rightarrow>
          (case attempts [0, 1, 2] (model_url m @ ustr ''?key='' @ api_key gen) prompt w of
             (res, w') \<Rightarrow> (res, gen, w')))"

subsection \<open>Text operations of Python\<close>

text \<open>
  \<open>str.isspace\<close> on one code point: the white space of Unicode, which \<open>str.strip()\<close>
  removes from both ends.
\<close>

definition isspace :: "nat \<Rightarrow> bool" where
  "isspace c \<longleftrightarrow>
     (9 \<le> c \<and> c \<le> 13) \<or> (28 \<le> c \<and> c \<le> 32) \<or> c = 133 \<or> c = 160 \<or> c = 5760
     \<or> (8192 \<le> c \<and> c \<le> 8202) \<or> c = 8232 \<or> c = 8233 \<or> c = 8239 \<or> c = 8287 \<or> c = 12288"

definition strip :: "ustring \<Rightarrow> ustring" where
  "strip s = rev (dropWhile isspace (rev (dropWhile isspace s)))"

text \<open>
  \<open>str.isalnum\<close> on one code point. In ASCII these are the letters and the digits. Beyond
  ASCII the answer comes from the Unicode database, the parameter \<open>uni\<close>;
  \<open>latin1_alnum\<close> is the database on the Latin-1 Supplement, U+0080 to U+00FF: the
  letters and the superscript digits and fractions.
\<close>

definition ascii_alnum :: "nat \<Rightarrow> bool" where
  "ascii_alnum c \<longleftrightarrow>
     c \<in> set (ustr ''abcdefghijklmnopqrstuvwxyzABCDEFGHIJKLMNOPQRSTUVWXYZ0123456789'')"

definition isalnum :: "(nat \<Rightarrow> bool) \<Rightarrow> nat \<Rightarrow> bool" where
  "isalnum uni c = (if c < 128 then ascii_alnum c else uni c)"

definition latin1_alnum :: "nat \<Rightarrow> bool" where
  "latin1_alnum c \<longleftrightarrow>
     c = 170 \<or> c = 178 \<or> c = 179 \<or> c = 181 \<or> c = 185 \<or> c = 186
     \<or> (188 \<le> c \<and> c \<le> 190) \<or> (192 \<le> c \<and> c \<le> 214)
     \<or> (216 \<le> c \<and> c \<le> 246) \<or> (248 \<le> c \<and> c \<le> 255)"

text \<open>\<open>s.replace(a, b)\<close> for single characters.\<close>

definition replace_char :: "nat \<Rightarrow> nat \<Rightarrow> ustring \<Rightarrow> ustring" where
  "replace_char a b s = map (\<lambda>c. if c = a then b else c) s"

text \<open>\<open>s.find(c)\<close> and \<open>s.rfind(c)\<close> for a single character: an index, or \<open>-1\<close>.\<close>

definition py_find :: "nat \<Rightarrow> ustring \<Rightarrow> int" where
  "py_find c s = (if c \<in> set s then int (length (takeWhile (\<lambda>x. x \<noteq> c) s)) else - 1)"

definition py_rfind :: "nat \<Rightarrow> ustring \<Rightarrow> int" where
  "py_rfind c s =
     (if c \<in> set s then int (length s) - 1 - int (length (takeWhile (\<lambda>x. x \<noteq> c) (rev s)))
      else - 1)"

text \<open>\<open>s[a:b]\<close> for indices that are not negative.\<close>

definition slice :: "int \<Rightarrow> int \<Rightarrow> ustring \<Rightarrow> ustring" where
  "slice a b s = drop (nat a) (take (nat b) s)"

definition startswith :: "ustring \<Rightarrow> ustring \<Rightarrow> bool" where
  "startswith p s \<longleftrightarrow> take (length p) s = p"

definition endswith :: "ustring \<Rightarrow> ustring \<Rightarrow> bool" where
  "endswith p s \<longleftrightarrow> length p \<le> length s \<and> drop (length s - length p) s = p"

subsection \<open>One company\<close>

text \<open>The prompt: the lines of the f-string, with the company name and the field list.\<close>

definition build_prompt :: "ustring \<Rightarrow> ustring list \<Rightarrow> ustring" where
  "build_prompt company_name required_fields =
     (let fields_list_str = join [10] (map (\<lambda>f. ustr ''- '' @ f) required_fields);
          ind = ustr ''        ''
      in join [10]
        [[],
         ind @ ustr ''Generate a comprehensive, realistic but fictional corporate profile for a company named ''
           @ [39] @ company_name @ [39] @ ustr ''.'',
         ind @ ustr ''The output must be a single JSON object.'',
         ind,
         ind @ ustr ''Include exactly these JSON keys:'',
         ind @ fields_list_str,
         ind,
         ind @ ustr ''Guidelines:'',
         ind @ ustr ''- Information must be realistic enough for training scenarios.'',
         ind @ ustr ''- For address fields, provide full plausible addresses.'',
         ind @ ustr ''- For lists (like key_technologies or aliases), provide 3-5 items.'',
         ind @ ustr ''- If you cannot find real data, invent realistic details consistent with the company''
           @ [39] @ ustr ''s industry.'',
         ind @ ustr ''- Return ONLY the JSON object.'',
         ind])"

text \<open>
  The cleaning of the answer in \<open>generate_company_info\<close>. \<open>json.loads\<close> is a parameter,
  \<open>None\<close> where it raises. An answer that is not a string has no \<open>strip\<close>: the exception is
  caught like that of the parser. \<open>end_idx\<close> is never \<open>-1\<close>: without a closing brace it is
  0 and the slice is empty.
\<close>

definition clean_and_parse :: "(ustring \<Rightarrow> json option) \<Rightarrow> json \<Rightarrow> json option" where
  "clean_and_parse json_loads result =
     (case result of
        JStr text \<Rightarrow>
          (let clean_json = strip text;
               clean_json = (if startswith (ustr ''```json'') clean_json
                             then drop 7 clean_json else clean_json);
               clean_json = (if endswith (ustr ''```'') clean_json
                             then take (length clean_json - 3) clean_json else clean_json);
               start_idx = py_find (cp CHR ''{'') clean_json;
               end_idx = py_rfind (cp CHR ''}'') clean_json + 1
           in if start_idx \<noteq> - 1 \<and> end_idx \<noteq> - 1
              then json_loads (slice start_idx end_idx clean_json)
              else None)
      | _ \<Rightarrow> None)"

definition generate_company_info ::
  "(ustring \<Rightarrow> json option) \<Rightarrow> generator \<Rightarrow> ustring \<Rightarrow> ustring list \<Rightarrow> 'a world_scheme
     \<Rightarrow> json option \<times> generator \<times> 'a world_scheme" where
  "generate_company_info json_loads gen company_name required_fields w =
     (case query_gemini gen (build_prompt company_name required_fields) w of
        (result, gen', w') \<Rightarrow>
          (case result of
             Some r \<Rightarrow> (if truthy r then clean_and_parse json_loads r else None, gen', w')
           | None \<Rightarrow> (None, gen', w')))"

text \<open>
  The file name \<open>process_company\<close> derives from the company name: the characters that
  are alphanumeric, a space, a hyphen or an underscore are kept, the result is stripped,
  and its spaces become underscores.
\<close>

definition safe_name :: "(nat \<Rightarrow> bool) \<Rightarrow> ustring \<Rightarrow> ustring" where
  "safe_name uni company_name =
     replace_char (cp CHR '' '') (cp CHR ''_'')
       (strip (filter (\<lambda>c. isalnum uni c \<or> c \<in> {cp CHR '' '', cp CHR ''-'', cp CHR ''_''})
                 company_name))"

definition data_file_name :: "(nat \<Rightarrow> bool) \<Rightarrow> ustring \<Rightarrow> ustring" where
  "data_file_name uni company_name = safe_name uni company_name @ ustr ''_data.json''"

text \<open>
  \<open>process_company\<close>: the profile is saved when \<open>if info\<close> holds, and the result is the
  pair of the flag and the path.
\<close>

definition process_company ::
  "(nat \<Rightarrow> bool) \<Rightarrow> (ustring \<Rightarrow> json option) \<Rightarrow> generator \<Rightarrow> ustring \<Rightarrow> ustring list
     \<Rightarrow> 'a world_scheme \<Rightarrow> (bool \<times> ustring option) \<times> generator \<times> 'a world_scheme" where
  "process_company uni json_loads gen company_name required_fields w =
     (case generate_company_info json_loads gen company_name required_fields (mkdir w) of
        (info, gen', w') \<Rightarrow>
          (case info of
             Some i \<Rightarrow>
               if truthy i then
                 (let fname = data_file_name uni company_name
                  in ((True, Some fname), gen',
                      do_event (WriteData fname) (w'\<lparr>files := write_file fname (Json i) (files w')\<rparr>)))
               else ((False, None), gen', w')
           | None \<Rightarrow> ((False, None), gen', w')))"

text \<open>What a theorem reads of an answer: its status code and its parsed body.\<close>

definition status_of :: "http_result \<Rightarrow> nat option" where
  "status_of r = (case r of Response status_code body \<Rightarrow> Some status_code | RequestException \<Rightarrow> None)"

definition body_of :: "http_result \<Rightarrow> json option" where
  "body_of r = (case r of Response status_code body \<Rightarrow> body | RequestException \<Rightarrow> None)"

definition is_post :: "event \<Rightarrow> bool" where
  "is_post e = (case e of HttpPost url body \<Rightarrow> True | _ \<Rightarrow> False)"

definition is_prompt_post :: "event \<Rightarrow> bool" where
  "is_prompt_post e = (case e of HttpPost url (PromptBody p) \<Rightarrow> True | _ \<Rightarrow> False)"

text \<open>The events a step adds to the trace.\<close>

definition new_events :: "'a world_scheme \<Rightarrow> 'a world_scheme \<Rightarrow> event list" where
  "new_events w w' = drop (length (trace w)) (trace w')"

text \<open>
  The retry policy in the words of the specification, over the answers to the successive
  attempts: with no attempt left the result is \<open>None\<close>; an answer 200 returns the
  extracted text at once; an answer 429 waits 20 seconds and tries again; any other
  answer, and an exception, returns \<open>None\<close> at once. The result comes with the requests
  and the waits in their order, \<open>P\<close> being the request.
\<close>

fun spec_attempts :: "nat \<Rightarrow> event \<Rightarrow> http_result list \<Rightarrow> json option \<times> event list" where
  "spec_attempts 0 P answers = (None, [])"
| "spec_attempts (Suc n) P [] = (None, [])"
| "spec_attempts (Suc n) P (r # answers) =
     (if status_of r = Some 200 then (extract_text (body_of r), [P])
      else if status_of r = Some 429 then
        (case spec_attempts n P answers of (res, evs) \<Rightarrow> (res, P # Sleep 20 # evs))
      else (None, [P]))"

text \<open>
  The answer of the API that carries the text \<open>t\<close>, and \<open>json.loads\<close> on two texts, the
  empty object and an object with the one key \<open>hq\<close>; they build the concrete worlds of the examples.
\<close>

definition gemini_answer :: "ustring \<Rightarrow> http_result" where
  "gemini_answer t =
     Response 200 (Some (JDict [(ustr ''candidates'',
       JList [JDict [(ustr ''content'',
         JDict [(ustr ''parts'', JList [JDict [(ustr ''text'', JStr t)]])])]])]))"

definition loads_sample :: "ustring \<Rightarrow> json option" where
  "loads_sample s =
     (if s = ustr ''{}'' then Some (JDict [])
      else if s = ustr ''{'' @ [34] @ ustr ''hq'' @ [34] @ ustr '': 1}''
      then Some (JDict [(ustr ''hq'', JInt 1)])
      else None)"

text \<open>A world at the start: nothing requested, no output directory, an empty trace.\<close>

definition start_world :: "(nat \<Rightarrow> http_result) \<Rightarrow> world" where
  "start_world answers = \<lparr>http_responses = answers, n_posts = 0, dir_exists = False, files = [], trace = []\<rparr>"

section \<open>The rest of the world, and the PDF compiler (compiler.py)\<close>

text \<open>
  What the pipeline meets beyond the Gemini API and the output directory: whether
  WeasyPrint could be imported and whether it renders a given HTML file, the environment
  variable with the API key, the files under \<open>templates/\<close>, the value of the worker's
  \<open>is_running\<close> flag at its \<open>n\<close>-th reading (the window sets it from another thread), the
  clock, and the two functions of the logo finder. The logo finder is not among the
  sources: a search answers with a URL, with nothing, or with an exception, and a download
  with success, failure or an exception.
\<close>

record pipeline_world = world +
  weasyprint_available :: bool
  render_ok :: "ustring \<Rightarrow> bool"
  env_api_key :: "ustring option"
  templates :: "ustring \<Rightarrow> template_file"
  running :: "nat \<Rightarrow> bool"
  n_checks :: nat
  image_search :: "ustring \<Rightarrow> py_error + ustring option"
  download_image :: "ustring \<Rightarrow> ustring \<Rightarrow> py_error + bool"
  now_timestamp :: ustring
  now_hhmm :: ustring

text \<open>\<open>base_path.glob('*' + suffix)\<close>: the names of the directory that end with the suffix.\<close>

definition glob_suffix :: "ustring \<Rightarrow> (ustring \<times> file_content) list \<Rightarrow> ustring list" where
  "glob_suffix suffix fs = filter (endswith suffix) (map fst fs)"

text \<open>\<open>Path.stem\<close>: the name without its last suffix, if it has one.\<close>

definition path_stem :: "ustring \<Rightarrow> ustring" where
  "path_stem name =
     (let i = py_rfind (cp CHR ''.'') name
      in if 0 < i \<and> i < int (length name) - 1 then take (nat i) name else name)"

text \<open>
  The loop of \<open>compile_html_to_pdf\<close> over the HTML files, with its two counters: every
  file is given to the renderer; a rendering that raises is recorded and the loop goes
  on.
\<close>

fun compile_loop ::
  "ustring list \<Rightarrow> nat \<Rightarrow> ustring list \<Rightarrow> 'a pipeline_world_scheme
     \<Rightarrow> nat \<times> ustring list \<times> 'a pipeline_world_scheme" where
  "compile_loop [] success_count failed_files w = (success_count, failed_files, w)"
| "compile_loop (html_file # rest) success_count failed_files w =
     (let pdf_file = path_stem html_file @ ustr ''.pdf'';
          w1 = do_event (RenderPdf html_file) w
      in if render_ok w html_file
         then compile_loop rest (success_count + 1) failed_files
                (w1\<lparr>files := write_file pdf_file Binary (files w1)\<rparr>)
         else compile_loop rest success_count (failed_files @ [html_file]) w1)"

definition html_files :: "'a pipeline_world_scheme \<Rightarrow> ustring list" where
  "html_files w = glob_suffix (ustr ''.html'') (files w)"

definition compile_html_to_pdf ::
  "'a pipeline_world_scheme \<Rightarrow> bool \<times> 'a pipeline_world_scheme" where
  "compile_html_to_pdf w =
     (if \<not> weasyprint_available w then (False, w)
      else if \<not> dir_exists w then (False, w)
      else (case compile_loop (html_files w) 0 [] w of
              (success_count, failed_files, w') \<Rightarrow> (success_count > 0, w')))"

section \<open>The background worker (app_ui.py)\<close>

text \<open>
  A step of the worker goes on with a value, returns from \<open>run\<close>, or raises into the
  handler around the whole of \<open>run\<close>.
\<close>

datatype 'a outcome = Continue 'a | Returned | Raised py_error

definition emit :: "signal \<Rightarrow> 'a world_scheme \<Rightarrow> 'a world_scheme" where
  "emit s w = do_event (Emit s) w"

text \<open>One reading of \<open>self.is_running\<close>.\<close>

definition check_running :: "'a pipeline_world_scheme \<Rightarrow> bool \<times> 'a pipeline_world_scheme" where
  "check_running w = (running w (n_checks w), w\<lparr>n_checks := Suc (n_checks w)\<rparr>)"

text \<open>
  The progress value \<open>int((current_step / total_steps) * 100)\<close>. The division and the
  multiplication are floating-point operations: each gives the exact result rounded to a
  double, and \<open>rnd\<close> is that rounding. \<open>int\<close> truncates towards zero.
\<close>

definition py_int :: "real \<Rightarrow> int" where
  "py_int x = (if 0 \<le> x then \<lfloor>x\<rfloor> else \<lceil>x\<rceil>)"

definition progress_value :: "(real \<Rightarrow> real) \<Rightarrow> nat \<Rightarrow> nat \<Rightarrow> int" where
  "progress_value rnd current_step total_steps =
     py_int (rnd (rnd (real current_step / real total_steps) * 100))"

text \<open>\<open>s.replace(old, new)\<close>, from left to right without overlap.\<close>

function replace_sub :: "ustring \<Rightarrow> ustring \<Rightarrow> ustring \<Rightarrow> ustring" where
  "replace_sub old new s =
     (if old = [] then new @ concat (map (\<lambda>c. c # new) s)
      else if s = [] then []
      else if take (length old) s = old then new @ replace_sub old new (drop (length old) s)
      else hd s # replace_sub old new (tl s))"
  by pat_completeness auto
termination
  by (relation "measure (\<lambda>(old, new, s). length s)") auto

declare replace_sub.simps [simp del]

text \<open>The names the worker derives from a data file.\<close>

definition safe_name_of :: "ustring \<Rightarrow> ustring" where
  "safe_name_of json_file = replace_sub (ustr ''_data'') [] (path_stem json_file)"

definition company_name_of :: "ustring \<Rightarrow> ustring" where
  "company_name_of json_file = replace_char (cp CHR ''_'') (cp CHR '' '') (safe_name_of json_file)"

definition logo_filename_of :: "ustring \<Rightarrow> ustring" where
  "logo_filename_of json_file = safe_name_of json_file @ ustr ''_logo.png''"

definition file_exists :: "ustring \<Rightarrow> 'a world_scheme \<Rightarrow> bool" where
  "file_exists name w \<longleftrightarrow> name \<in> set (map fst (files w))"

text \<open>The parameters of a run: the library functions, the rounding, and the worker's fields.\<close>

record worker =
  lib_alnum :: "nat \<Rightarrow> bool"
  lib_json_loads :: "ustring \<Rightarrow> json option"
  lib_repr_str :: "ustring \<Rightarrow> ustring"
  float_round :: "real \<Rightarrow> real"
  worker_api_key :: "ustring option"
  companies :: "ustring list"
  template_name :: ustring

text \<open>The constructor keeps the stripped names that are not empty.\<close>

definition clean_companies :: "ustring list \<Rightarrow> ustring list" where
  "clean_companies cs = map strip (filter (\<lambda>c. strip c \<noteq> []) cs)"

subsection \<open>Phase 1: the profiles\<close>

text \<open>The cooldown between two companies: ten seconds, with the flag read before each.\<close>

fun cooldown :: "nat \<Rightarrow> 'a pipeline_world_scheme \<Rightarrow> unit outcome \<times> 'a pipeline_world_scheme" where
  "cooldown 0 w = (Continue (), w)"
| "cooldown (Suc k) w =
     (case check_running w of
        (False, w1) \<Rightarrow> (Returned, w1)
      | (True, w1) \<Rightarrow> cooldown k (do_event (Sleep 1) w1))"

text \<open>
  The loop over \<open>enumerate(self.companies)\<close>: \<open>total_steps\<close> and the required fields
  are fixed, the generator and \<open>current_step\<close> change.
\<close>

fun phase1_loop ::
  "worker \<Rightarrow> ustring list \<Rightarrow> nat \<Rightarrow> (nat \<times> ustring) list \<Rightarrow> generator \<Rightarrow> nat
     \<Rightarrow> 'a pipeline_world_scheme \<Rightarrow> (generator \<times> nat) outcome \<times> 'a pipeline_world_scheme" where
  "phase1_loop wk required_fields total_steps [] ai_gen current_step w =
     (Continue (ai_gen, current_step), w)"
| "phase1_loop wk required_fields total_steps ((i, company) # rest) ai_gen current_step w =
     (case check_running w of
        (False, w1) \<Rightarrow> (Returned, w1)
      | (True, w1) \<Rightarrow>
          (case process_company (lib_alnum wk) (lib_json_loads wk) ai_gen company required_fields
                  (emit (Log (AISearching company)) w1) of
             ((success, json_path), ai_gen', w2) \<Rightarrow>
               (let w3 = emit (Log (if success then DataSaved else AIFailed)) w2;
                    current_step = current_step + 1;
                    w4 = emit (Progress (progress_value (float_round wk) current_step total_steps)) w3
                in if int i < int (length (companies wk)) - 1 then
                     (case cooldown 10 (emit (Log Cooldown) w4) of
                        (Continue u, w5) \<Rightarrow>
                          phase1_loop wk required_fields total_steps rest ai_gen' current_step w5
                      | (Returned, w5) \<Rightarrow> (Returned, w5)
                      | (Raised e, w5) \<Rightarrow> (Raised e, w5))
                   else phase1_loop wk required_fields total_steps rest ai_gen' current_step w4)))"

subsection \<open>Phase 2: the logos\<close>

text \<open>
  The search and the download for one data file whose logo is missing. A successful
  download leaves the logo in the directory.
\<close>

definition acquire_logo ::
  "ustring \<Rightarrow> 'a pipeline_world_scheme \<Rightarrow> unit outcome \<times> 'a pipeline_world_scheme" where
  "acquire_logo json_file w =
     (let company_name = company_name_of json_file;
          logo_filename = logo_filename_of json_file;
          w1 = emit (Log (SearchingLogo company_name)) w;
          w2 = do_event (ImageSearch (company_name @ ustr '' logo'')) w1
      in case image_search w (company_name @ ustr '' logo'') of
           Inl e \<Rightarrow> (Raised e, w2)
         | Inr None \<Rightarrow> (Continue (), emit (Log NoImageFound) w2)
         | Inr (Some img_url) \<Rightarrow>
             if img_url = [] then (Continue (), emit (Log NoImageFound) w2)
             else
               (let w3 = do_event (Download logo_filename) w2
                in case download_image w img_url logo_filename of
                     Inl e \<Rightarrow> (Raised e, w3)
                   | Inr success \<Rightarrow>
                       if success
                       then (Continue (),
                             emit (Log LogoDownloaded)
                               (w3\<lparr>files := write_file logo_filename Binary (files w3)\<rparr>))
                       else (Continue (), emit (Log DownloadFailed) w3)))"

fun phase2_loop ::
  "worker \<Rightarrow> nat \<Rightarrow> ustring list \<Rightarrow> nat \<Rightarrow> 'a pipeline_world_scheme
     \<Rightarrow> nat outcome \<times> 'a pipeline_world_scheme" where
  "phase2_loop wk total_steps [] current_step w = (Continue current_step, w)"
| "phase2_loop wk total_steps (json_file # rest) current_step w =
     (case check_running w of
        (False, w1) \<Rightarrow> (Returned, w1)
      | (True, w1) \<Rightarrow>
          (case (if file_exists (logo_filename_of json_file) w1
                 then (Continue (), emit (Log (LogoExists (company_name_of json_file))) w1)
                 else acquire_logo json_file w1) of
             (Continue u, w2) \<Rightarrow>
               (let current_step = current_step + 1;
                    w3 = emit (Progress (progress_value (float_round wk) current_step total_steps)) w2
                in phase2_loop wk total_steps rest current_step w3)
           | (Returned, w2) \<Rightarrow> (Returned, w2)
           | (Raised e, w2) \<Rightarrow> (Raised e, w2)))"

subsection \<open>Phase 3: the HTML files\<close>

text \<open>\<open>data[key] = value\<close> on the items of a dict.\<close>

definition dict_set :: "ustring \<Rightarrow> json \<Rightarrow> (ustring \<times> json) list \<Rightarrow> (ustring \<times> json) list" where
  "dict_set key val kvs =
     (if key \<in> set (map fst kvs)
      then map (\<lambda>(k, v). if k = key then (k, val) else (k, v)) kvs
      else kvs @ [(key, val)])"

text \<open>
  The \<open>try\<close> block for one data file: the file must hold a JSON dict, which gets the logo
  file name before it is merged into the template; anything else is an exception, which
  the block logs.
\<close>

definition build_html :: "worker \<Rightarrow> ustring \<Rightarrow> 'a pipeline_world_scheme \<Rightarrow> 'a pipeline_world_scheme" where
  "build_html wk json_file w =
     (case map_of (files w) json_file of
        Some (Json (JDict kvs)) \<Rightarrow>
          (let data = JDict (dict_set (ustr ''logo_filename'') (JStr (logo_filename_of json_file)) kvs);
               html_content = generate_html_content (lib_repr_str wk) (now_timestamp w) (now_hhmm w)
                                (templates w (template_name wk)) data;
               html_path = safe_name_of json_file @ ustr ''_profile.html'';
               w1 = do_event (WriteHtml html_path)
                      (w\<lparr>files := write_file html_path (Html html_content) (files w)\<rparr>)
           in emit (Log (BuiltHtml (safe_name_of json_file))) w1)
      | _ \<Rightarrow> emit (Log HtmlError) w)"

fun phase3_loop ::
  "worker \<Rightarrow> nat \<Rightarrow> ustring list \<Rightarrow> nat \<Rightarrow> 'a pipeline_world_scheme
     \<Rightarrow> nat outcome \<times> 'a pipeline_world_scheme" where
  "phase3_loop wk total_steps [] current_step w = (Continue current_step, w)"
| "phase3_loop wk total_steps (json_file # rest) current_step w =
     (case check_running w of
        (False, w1) \<Rightarrow> (Returned, w1)
      | (True, w1) \<Rightarrow>
          (let w2 = build_html wk json_file w1;
               current_step = current_step + 1;
               w3 = emit (Progress (progress_value (float_round wk) current_step total_steps)) w2
           in phase3_loop wk total_steps rest current_step w3))"

subsection \<open>The run\<close>

definition total_steps_of :: "worker \<Rightarrow> nat" where
  "total_steps_of wk = length (companies wk) * 3 + 1"

definition data_files :: "'a world_scheme \<Rightarrow> ustring list" where
  "data_files w = glob_suffix (ustr ''_data.json'') (files w)"

text \<open>
  \<open>run\<close> up to the end of phase 1: the template analysis, the generator, the loop over
  the companies. A missing template and a generator without a key emit \<open>error\<close> and
  return.
\<close>

definition run_phases_0_1 ::
  "worker \<Rightarrow> 'a pipeline_world_scheme \<Rightarrow> (generator \<times> nat) outcome \<times> 'a pipeline_world_scheme" where
  "run_phases_0_1 wk w =
     (let w1 = emit (Log Phase0) (mkdir w)
      in case templates w1 (template_name wk) of
           Missing \<Rightarrow> (Returned, emit Error w1)
         | template \<Rightarrow>
             (let required_fields = get_template_variables template;
                  w2 = emit (Log (if required_fields = [] then NoVariables
                                  else FieldsFound (length required_fields))) w1;
                  w3 = emit (Log Phase1) w2
              in case new_generator (worker_api_key wk) (env_api_key w3) of
                   Inl e \<Rightarrow> (Returned, emit Error w3)
                 | Inr ai_gen \<Rightarrow>
                     phase1_loop wk required_fields (total_steps_of wk)
                       (enumerate 0 (companies wk)) ai_gen 0 w3))"

text \<open>\<open>run\<close> from phase 2 on, with the data files the directory holds at that moment.\<close>

definition run_phases_2_3_4 ::
  "worker \<Rightarrow> nat \<Rightarrow> 'a pipeline_world_scheme \<Rightarrow> unit outcome \<times> 'a pipeline_world_scheme" where
  "run_phases_2_3_4 wk current_step w =
     (let w1 = emit (Log Phase2) w;
          json_files = data_files w1
      in case phase2_loop wk (total_steps_of wk) json_files current_step w1 of
           (Continue current_step, w2) \<Rightarrow>
             (case phase3_loop wk (total_steps_of wk) json_files current_step
                     (emit (Log Phase3) w2) of
                (Continue current_step, w3) \<Rightarrow>
                  (case compile_html_to_pdf (emit (Log Phase4) w3) of
                     (success, w4) \<Rightarrow>
                       (Continue (),
                        emit Finished
                          (emit (Progress 100)
                             (emit (Log (if success then PipelineComplete else PdfErrors)) w4))))
              | (Returned, w3) \<Rightarrow> (Returned, w3)
              | (Raised e, w3) \<Rightarrow> (Raised e, w3))
         | (Returned, w2) \<Rightarrow> (Returned, w2)
         | (Raised e, w2) \<Rightarrow> (Raised e, w2))"

text \<open>
  \<open>run\<close>: the phases in their order, and the handler of the exceptions, which emits
  \<open>error\<close>. The result is the world the run leaves.
\<close>

definition run :: "worker \<Rightarrow> 'a pipeline_world_scheme \<Rightarrow> 'a pipeline_world_scheme" where
  "run wk w =
     (case run_phases_0_1 wk w of
        (Continue (ai_gen, current_step), w1) \<Rightarrow>
          (case run_phases_2_3_4 wk current_step w1 of
             (Raised e, w2) \<Rightarrow> emit Error w2
           | (out, w2) \<Rightarrow> w2)
      | (Returned, w1) \<Rightarrow> w1
      | (Raised e, w1) \<Rightarrow> emit Error w1)"

subsection \<open>Reading a trace\<close>

text \<open>
  The phase an event belongs to: the requests, the waits and the data files are phase 1,
  the logo finder is phase 2, the HTML files phase 3, the renderer phase 4, and a line
  of the log belongs to the phase that writes it. The progress values and the two final
  signals belong to no phase.
\<close>

fun log_phase :: "log_msg \<Rightarrow> nat" where
  "log_phase Phase0 = 0"
| "log_phase (FieldsFound n) = 0"
| "log_phase NoVariables = 0"
| "log_phase Phase1 = 1"
| "log_phase (AISearching c) = 1"
| "log_phase DataSaved = 1"
| "log_phase AIFailed = 1"
| "log_phase Cooldown = 1"
| "log_phase Phase2 = 2"
| "log_phase (LogoExists c) = 2"
| "log_phase (SearchingLogo c) = 2"
| "log_phase LogoDownloaded = 2"
| "log_phase DownloadFailed = 2"
| "log_phase NoImageFound = 2"
| "log_phase Phase3 = 3"
| "log_phase (BuiltHtml n) = 3"
| "log_phase HtmlError = 3"
| "log_phase Phase4 = 4"
| "log_phase PipelineComplete = 4"
| "log_phase PdfErrors = 4"

fun phase_of :: "event \<Rightarrow> nat option" where
  "phase_of (HttpPost url body) = Some 1"
| "phase_of (Sleep n) = Some 1"
| "phase_of (WriteData name) = Some 1"
| "phase_of (ImageSearch query) = Some 2"
| "phase_of (Download name) = Some 2"
| "phase_of (WriteHtml name) = Some 3"
| "phase_of (RenderPdf name) = Some 4"
| "phase_of (Emit (Log m)) = Some (log_phase m)"
| "phase_of (Emit s) = None"

definition phases :: "event list \<Rightarrow> nat list" where
  "phases evs = List.map_filter phase_of evs"

fun progress_of :: "event \<Rightarrow> int option" where
  "progress_of (Emit (Progress v)) = Some v"
| "progress_of e = None"

definition progress_values :: "event list \<Rightarrow> int list" where
  "progress_values evs = List.map_filter progress_of evs"

text \<open>
  The items a phase has handled, as the log shows them: the company of each
  \<open>AI searching\<close> line, the company of each line about a logo that exists or is searched,
  and the lines about an HTML file that was built or failed.
\<close>

fun ai_item :: "event \<Rightarrow> ustring option" where
  "ai_item (Emit (Log (AISearching c))) = Some c"
| "ai_item e = None"

fun logo_item :: "event \<Rightarrow> ustring option" where
  "logo_item (Emit (Log (LogoExists c))) = Some c"
| "logo_item (Emit (Log (SearchingLogo c))) = Some c"
| "logo_item e = None"

fun html_item :: "event \<Rightarrow> bool" where
  "html_item (Emit (Log (BuiltHtml n))) = True"
| "html_item (Emit (Log HtmlError)) = True"
| "html_item e = False"

definition ai_items :: "event list \<Rightarrow> ustring list" where
  "ai_items evs = List.map_filter ai_item evs"

definition logo_items :: "event list \<Rightarrow> ustring list" where
  "logo_items evs = List.map_filter logo_item evs"

definition html_items :: "event list \<Rightarrow> event list" where
  "html_items evs = filter html_item evs"

definition finished :: "event list \<Rightarrow> bool" where
  "finished evs \<longleftrightarrow> Emit Finished \<in> set evs"

text \<open>
  A world for the examples: no network, an empty output directory, a renderer that
  works, no template, a worker that is never stopped, and a logo finder that finds
  nothing.
\<close>

definition sample_world :: pipeline_world where
  "sample_world =
     \<lparr>http_responses = (\<lambda>n. RequestException), n_posts = 0, dir_exists = True, files = [],
      trace = [], weasyprint_available = True, render_ok = (\<lambda>f. True),
      env_api_key = Some (ustr ''key''), templates = (\<lambda>name. Missing),
      running = (\<lambda>n. True), n_checks = 0,
      image_search = (\<lambda>query. Inr None), download_image = (\<lambda>url filename. Inr False),
      now_timestamp = ustr ''2026-01-01 10:00'', now_hhmm = ustr ''1000''\<rparr>"

subsection \<open>The scanner finds exactly the placeholders\<close>

lemma match_placeholder_Some_iff:
  "match_placeholder s = Some (v, rest) \<longleftrightarrow>
     (v \<noteq> [] \<and> (\<forall>c\<in>set v. ident_char c) \<and> s = ustr ''${'' @ v @ ustr ''}'' @ rest)"
proof
  assume m: "match_placeholder s = Some (v, rest)"
  then obtain r where s: "s = cp CHR ''$'' # cp CHR ''{'' # r"
    by (auto simp: match_placeholder_def split: list.splits if_splits)
  from m s have v: "v = takeWhile ident_char r" and ne: "v \<noteq> []"
    and d: "dropWhile ident_char r = cp CHR ''}'' # rest"
    by (auto simp: match_placeholder_def Let_def split: list.splits if_splits)
  have "r = takeWhile ident_char r @ dropWhile ident_char r" by simp
  with v d have "r = v @ cp CHR ''}'' # rest" by simp
  moreover from v have "\<forall>c\<in>set v. ident_char c" by (auto dest: set_takeWhileD)
  ultimately show "v \<noteq> [] \<and> (\<forall>c\<in>set v. ident_char c) \<and> s = ustr ''${'' @ v @ ustr ''}'' @ rest"
    using s ne by simp
next
  assume a: "v \<noteq> [] \<and> (\<forall>c\<in>set v. ident_char c) \<and> s = ustr ''${'' @ v @ ustr ''}'' @ rest"
  then have tw: "takeWhile ident_char (v @ cp CHR ''}'' # rest) = v"
    and dw: "dropWhile ident_char (v @ cp CHR ''}'' # rest) = cp CHR ''}'' # rest"
    by (simp_all add: takeWhile_append2 dropWhile_append2)
  from a show "match_placeholder s = Some (v, rest)"
    by (simp add: match_placeholder_def Let_def tw dw)
qed

lemma append_dollar_split:
  assumes eq: "a @ rest = pre @ cp CHR ''$'' # x"
    and nd: "cp CHR ''$'' \<notin> set (tl a)" and pre: "pre \<noteq> []"
  shows "\<exists>p. rest = p @ cp CHR ''$'' # x"
proof -
  from eq obtain us where
    "(a = pre @ us \<and> us @ rest = cp CHR ''$'' # x) \<or> (a @ us = pre \<and> rest = us @ cp CHR ''$'' # x)"
    by (auto simp: append_eq_append_conv2)
  then show ?thesis
  proof
    assume h: "a = pre @ us \<and> us @ rest = cp CHR ''$'' # x"
    show ?thesis
    proof (cases us)
      case Nil
      with h show ?thesis by auto
    next
      case (Cons u us')
      with h have "u = cp CHR ''$''" by simp
      with h Cons pre have "cp CHR ''$'' \<in> set (tl a)" by (cases pre) auto
      with nd show ?thesis by simp
    qed
  next
    assume "a @ us = pre \<and> rest = us @ cp CHR ''$'' # x"
    then show ?thesis by auto
  qed
qed

lemma findall_sound:
  "v \<in> set (findall s) \<Longrightarrow> occurs_as_placeholder s v"
proof (induction s rule: findall.induct)
  case 1
  then show ?case by simp
next
  case (2 c cs)
  show ?case
  proof (cases "match_placeholder (c # cs)")
    case None
    with 2 have "occurs_as_placeholder cs v" by simp
    then obtain pre post where "cs = pre @ ustr ''${'' @ v @ ustr ''}'' @ post"
      and ok: "v \<noteq> []" "\<forall>c\<in>set v. ident_char c"
      by (auto simp: occurs_as_placeholder_def)
    then have "c # cs = (c # pre) @ ustr ''${'' @ v @ ustr ''}'' @ post" by simp
    with ok show ?thesis unfolding occurs_as_placeholder_def by blast
  next
    case (Some p)
    obtain w rest where p: "p = (w, rest)" by (cases p)
    from Some p have m: "w \<noteq> []" "\<forall>c\<in>set w. ident_char c"
      and s: "c # cs = ustr ''${'' @ w @ ustr ''}'' @ rest"
      by (simp_all add: match_placeholder_Some_iff)
    from 2 Some p have "v = w \<or> v \<in> set (findall rest)" by simp
    then show ?thesis
    proof
      assume "v = w"
      with m s have "c # cs = [] @ ustr ''${'' @ v @ ustr ''}'' @ rest" by simp
      with m \<open>v = w\<close> show ?thesis unfolding occurs_as_placeholder_def by blast
    next
      assume "v \<in> set (findall rest)"
      with 2 Some p have "occurs_as_placeholder rest v" by simp
      then obtain pre post where "rest = pre @ ustr ''${'' @ v @ ustr ''}'' @ post"
        and ok: "v \<noteq> []" "\<forall>c\<in>set v. ident_char c"
        by (auto simp: occurs_as_placeholder_def)
      with s have "c # cs = (ustr ''${'' @ w @ ustr ''}'' @ pre) @ ustr ''${'' @ v @ ustr ''}'' @ post" by simp
      with ok show ?thesis unfolding occurs_as_placeholder_def by blast
    qed
  qed
qed

lemma findall_complete_aux:
  "s = pre @ ustr ''${'' @ v @ ustr ''}'' @ post \<Longrightarrow> v \<noteq> [] \<Longrightarrow> \<forall>c\<in>set v. ident_char c
     \<Longrightarrow> v \<in> set (findall s)"
proof (induction s arbitrary: pre rule: findall.induct)
  case 1
  then show ?case by simp
next
  case (2 c cs)
  show ?case
  proof (cases pre)
    case Nil
    with 2 have "match_placeholder (c # cs) = Some (v, post)"
      by (simp add: match_placeholder_Some_iff)
    then show ?thesis by simp
  next
    case (Cons d pre')
    with 2 have cs: "cs = pre' @ ustr ''${'' @ v @ ustr ''}'' @ post" by simp
    show ?thesis
    proof (cases "match_placeholder (c # cs)")
      case None
      with 2 cs show ?thesis by simp
    next
      case (Some p)
      obtain w rest where p: "p = (w, rest)" by (cases p)
      from Some p have m: "\<forall>c\<in>set w. ident_char c"
        and s: "c # cs = ustr ''${'' @ w @ ustr ''}'' @ rest"
        by (simp_all add: match_placeholder_Some_iff)
      have nd: "cp CHR ''$'' \<notin> set (tl (ustr ''${'' @ w @ ustr ''}''))"
        using m by auto
      from s 2(3) have "(ustr ''${'' @ w @ ustr ''}'') @ rest = pre @ cp CHR ''$'' # (ustr ''{'' @ v @ ustr ''}'' @ post)"
        by simp
      from append_dollar_split [OF this nd] Cons
      obtain q where "rest = q @ ustr ''${'' @ v @ ustr ''}'' @ post" by auto
      with 2 Some p have "v \<in> set (findall rest)" by simp
      with Some p show ?thesis by simp
    qed
  qed
qed

lemma set_findall: "set (findall s) = {v. occurs_as_placeholder s v}"
  using findall_sound findall_complete_aux
  by (auto simp: occurs_as_placeholder_def)

text \<open>
  Claim C2. For every template content, \<open>get_template_variables\<close> returns the sorted
  list, without duplicates, of exactly the identifiers that occur in the text as
  \<open>${identifier}\<close> (an identifier being a non-empty word over \<open>[a-zA-Z0-9_]\<close>), with the
  three system keys removed; the list holds no system key and no duplicate.
\<close>

theorem get_template_variables_spec:
  "get_template_variables (Content content) =
     sorted_list_of_set ({v. occurs_as_placeholder content v} - SYSTEM_VARIABLES)
   \<and> sorted (get_template_variables (Content content))
   \<and> distinct (get_template_variables (Content content))
   \<and> set (get_template_variables (Content content)) =
       {v. occurs_as_placeholder content v} - SYSTEM_VARIABLES
   \<and> set (get_template_variables (Content content)) \<inter> SYSTEM_VARIABLES = {}"
proof -
  have occ: "{v. occurs_as_placeholder content v} = set (findall content)"
    by (simp add: set_findall)
  have g: "get_template_variables (Content content) =
      sorted_list_of_set (set (findall content) - SYSTEM_VARIABLES)"
    by (simp add: get_template_variables_def)
  have fin: "finite (set (findall content) - SYSTEM_VARIABLES)" by simp
  have s: "set (get_template_variables (Content content)) =
      set (findall content) - SYSTEM_VARIABLES"
    unfolding g using fin by simp
  show ?thesis
    unfolding occ s unfolding g by auto
qed

theorem get_template_variables_spec_witness:
  "sorted_list_of_set
     ({v. occurs_as_placeholder (ustr ''<h1>${name}</h1><p>${timestamp} ${hq_2} ${name}</p>'') v}
        - SYSTEM_VARIABLES) = [ustr ''hq_2'', ustr ''name'']
   \<and> get_template_variables (Content (ustr ''<h1>${name}</h1><p>${timestamp} ${hq_2} ${name}</p>''))
       = [ustr ''hq_2'', ustr ''name'']"
proof -
  have e: "get_template_variables
      (Content (ustr ''<h1>${name}</h1><p>${timestamp} ${hq_2} ${name}</p>'')) = [ustr ''hq_2'', ustr ''name'']"
    by code_simp
  from get_template_variables_spec
    [of "ustr ''<h1>${name}</h1><p>${timestamp} ${hq_2} ${name}</p>''"] e
  show ?thesis by simp
qed

section \<open>Properties of the substitution\<close>

subsection \<open>Tokens of a text cut before a delimiter\<close>

lemma takeWhile_append_stop:
  "\<not> P y \<Longrightarrow> takeWhile P (xs @ y # ys) = takeWhile P xs"
  by (induction xs) auto

lemma dropWhile_append_stop:
  "\<not> P y \<Longrightarrow> dropWhile P (xs @ y # ys) = dropWhile P xs @ y # ys"
  by (induction xs) auto

lemma match_braced_append:
  "match_braced (cs @ cp CHR ''$'' # r) =
     (case match_braced cs of Some (v, rest) \<Rightarrow> Some (v, rest @ cp CHR ''$'' # r) | None \<Rightarrow> None)"
proof -
  have aux: "\<And>d A v.
     (case d @ cp CHR ''$'' # r of
        c' # rest \<Rightarrow> if A \<and> c' = cp CHR ''}'' then Some (v, rest) else None
      | [] \<Rightarrow> None) =
     (case (case d of c' # rest \<Rightarrow> if A \<and> c' = cp CHR ''}'' then Some (v, rest) else None
                    | [] \<Rightarrow> None) of
        Some (v, rest) \<Rightarrow> Some (v, rest @ cp CHR ''$'' # r) | None \<Rightarrow> None)"
    subgoal for d A v by (cases d) auto
    done
  show ?thesis
    unfolding match_braced_def Let_def
    by (simp only: takeWhile_append_stop dropWhile_append_stop ident_char_not_delim
          not_False_eq_True conj_assoc [symmetric] aux)
qed

lemma match_delimiter_append:
  "cs \<noteq> [] \<Longrightarrow> match_delimiter cs = (mo, rest) \<Longrightarrow>
     match_delimiter (cs @ cp CHR ''$'' # r) = (mo, rest @ cp CHR ''$'' # r)"
proof (cases cs)
  case Nil
  assume "cs \<noteq> []"
  with Nil show ?thesis by simp
next
  case (Cons c cs')
  assume m: "match_delimiter cs = (mo, rest)"
  have tw: "takeWhile ident_char ((c # cs') @ cp CHR ''$'' # r) = takeWhile ident_char (c # cs')"
    by (rule takeWhile_append_stop) simp
  have dw: "dropWhile ident_char ((c # cs') @ cp CHR ''$'' # r)
      = dropWhile ident_char (c # cs') @ cp CHR ''$'' # r"
    by (rule dropWhile_append_stop) simp
  have "match_delimiter ((c # cs') @ cp CHR ''$'' # r) =
     (case match_delimiter (c # cs') of (mo, rest) \<Rightarrow> (mo, rest @ cp CHR ''$'' # r))"
    unfolding match_delimiter_def tw dw
    by (simp add: match_braced_append split: option.splits)
  with m Cons show ?thesis by simp
qed

lemma match_delimiter_suffix:
  "match_delimiter cs = (mo, rest) \<Longrightarrow> \<exists>p. cs = p @ rest"
proof (cases cs)
  case Nil
  assume "match_delimiter cs = (mo, rest)"
  with Nil show ?thesis by (simp add: match_delimiter_def)
next
  case (Cons c cs')
  assume m: "match_delimiter cs = (mo, rest)"
  show ?thesis
  proof (cases "c = cp CHR ''$''")
    case True
    with m Cons have "rest = cs'" by (simp add: match_delimiter_def)
    with Cons have "cs = [c] @ rest" by simp
    then show ?thesis by blast
  next
    case nd: False
    show ?thesis
    proof (cases "id_start c")
      case True
      with m Cons nd have "rest = dropWhile ident_char cs" by (simp add: match_delimiter_def)
      then have "cs = takeWhile ident_char cs @ rest" by simp
      then show ?thesis by blast
    next
      case ns: False
      show ?thesis
      proof (cases "c = cp CHR ''{''")
        case False
        with m Cons nd ns have "rest = cs" by (simp add: match_delimiter_def)
        then show ?thesis by simp
      next
        case True
        show ?thesis
        proof (cases "match_braced cs'")
          case None
          with m Cons nd ns True have "rest = cs" by (simp add: match_delimiter_def)
          then show ?thesis by simp
        next
          case (Some q)
          obtain v t where q: "q = (v, t)" by (cases q)
          with Some m Cons nd ns True have "rest = t" by (simp add: match_delimiter_def)
          with Some q have "cs' = v @ cp CHR ''}'' # rest" by (simp add: match_braced_Some_iff)
          with Cons have "cs = (c # v @ ustr ''}'') @ rest" by simp
          then show ?thesis by blast
        qed
      qed
    qed
  qed
qed

lemma match_delimiter_rest_last:
  assumes "match_delimiter cs = (mo, rest)" and "cs \<noteq> []" and "last cs \<noteq> cp CHR ''$''"
  shows "rest = [] \<or> last rest \<noteq> cp CHR ''$''"
proof -
  from match_delimiter_suffix [OF assms(1)] obtain p where "cs = p @ rest" by blast
  with assms(3) show ?thesis by (cases "rest = []") simp_all
qed

lemma template_tokens_append:
  "pre = [] \<or> last pre \<noteq> cp CHR ''$'' \<Longrightarrow>
     template_tokens (pre @ cp CHR ''$'' # r) = template_tokens pre @ template_tokens (cp CHR ''$'' # r)"
proof (induction pre rule: template_tokens.induct)
  case 1
  show ?case by simp
next
  case (2 c cs)
  show ?case
  proof (cases "c = cp CHR ''$''")
    case False
    with 2 have "cs = [] \<or> last cs \<noteq> cp CHR ''$''" by (auto split: if_splits)
    with 2 False show ?thesis by simp
  next
    case True
    with 2(3) have ne: "cs \<noteq> []" and l: "last cs \<noteq> cp CHR ''$''" by (auto split: if_splits)
    obtain mo rest where m: "match_delimiter cs = (mo, rest)" by (cases "match_delimiter cs")
    from match_delimiter_append [OF ne m]
    have m': "match_delimiter (cs @ cp CHR ''$'' # r) = (mo, rest @ cp CHR ''$'' # r)" .
    from match_delimiter_rest_last [OF m ne l]
    have "rest = [] \<or> last rest \<noteq> cp CHR ''$''" .
    then have r: "rest = [] \<or> last rest \<noteq> cp CHR ''$''" .
    from 2(1) [OF True m [symmetric] r]
    have "template_tokens (rest @ cp CHR ''$'' # r) =
        template_tokens rest @ template_tokens (cp CHR ''$'' # r)" by simp
    with True m m' show ?thesis by simp
  qed
qed

subsection \<open>Tokens of a placeholder, and their conversion\<close>

lemma template_tokens_literals:
  "cp CHR ''$'' \<notin> set lits \<Longrightarrow>
     template_tokens (lits @ rest) = map Lit lits @ template_tokens rest"
  by (induction lits) auto

lemma ident_chars_no_delimiter:
  "\<forall>c\<in>set k. ident_char c \<Longrightarrow> (cp CHR ''$'') \<notin> set k"
  by auto

lemma template_tokens_braced:
  assumes "k \<noteq> []" and "id_start (hd k)" and "\<forall>c\<in>set k. ident_char c"
  shows "template_tokens (ustr ''${'' @ k @ ustr ''}'' @ post) = Match (mo_braced k) # template_tokens post"
proof -
  from assms have "match_braced (k @ cp CHR ''}'' # post) = Some (k, post)"
    by (simp add: match_braced_Some_iff)
  moreover have "\<not> id_start (cp CHR ''{'')" by (simp add: id_start_def)
  ultimately have "match_delimiter (cp CHR ''{'' # k @ cp CHR ''}'' # post) = (mo_braced k, post)"
    by (simp add: match_delimiter_def)
  then show ?thesis by simp
qed

lemma template_tokens_not_identifier:
  assumes "k = [] \<or> \<not> id_start (hd k)" and "\<forall>c\<in>set k. ident_char c"
  shows "template_tokens (ustr ''${'' @ k @ ustr ''}'' @ post) =
     Match mo_invalid # map Lit (ustr ''{'' @ k @ ustr ''}'') @ template_tokens post"
proof -
  have "match_braced (k @ cp CHR ''}'' # post) = None"
  proof (cases "match_braced (k @ cp CHR ''}'' # post)")
    case None
    then show ?thesis .
  next
    case (Some q)
    obtain v t where q: "q = (v, t)" by (cases q)
    with Some have v: "v \<noteq> []" "id_start (hd v)" "\<forall>c\<in>set v. ident_char c"
      and e: "k @ cp CHR ''}'' # post = v @ cp CHR ''}'' # t"
      by (simp_all add: match_braced_Some_iff)
    have "takeWhile ident_char (k @ cp CHR ''}'' # post) = k"
      using assms(2) by (simp add: takeWhile_append2)
    moreover have "takeWhile ident_char (v @ cp CHR ''}'' # t) = v"
      using v(3) by (simp add: takeWhile_append2)
    ultimately have "k = v" using e by simp
    with v assms(1) show ?thesis by simp
  qed
  moreover have "\<not> id_start (cp CHR ''{'')" by (simp add: id_start_def)
  ultimately have "match_delimiter (cp CHR ''{'' # k @ cp CHR ''}'' # post)
      = (mo_invalid, cp CHR ''{'' # k @ cp CHR ''}'' # post)"
    by (simp add: match_delimiter_def)
  then have "template_tokens (ustr ''${'' @ k @ ustr ''}'' @ post) =
      Match mo_invalid # template_tokens ((ustr ''{'' @ k @ ustr ''}'') @ post)" by simp
  also have "template_tokens ((ustr ''{'' @ k @ ustr ''}'') @ post) =
      map Lit (ustr ''{'' @ k @ ustr ''}'') @ template_tokens post"
    by (rule template_tokens_literals) (use assms(2) in auto)
  finally show ?thesis .
qed

lemma substitute_tokens_append:
  "substitute_tokens m (ts @ us) =
     (case substitute_tokens m ts of
        Inl e \<Rightarrow> Inl e
      | Inr a \<Rightarrow> (case substitute_tokens m us of Inl e \<Rightarrow> Inl e | Inr b \<Rightarrow> Inr (a @ b)))"
  by (induction m ts rule: substitute_tokens.induct) (auto split: sum.splits)

lemma substitute_tokens_literals:
  "substitute_tokens m (map Lit lits) = Inr lits"
  by (induction lits) auto

lemma id_start_ident_char: "id_start c \<Longrightarrow> ident_char c"
  by (auto simp: id_start_def ident_char_def)

lemma convert_match_delimiter:
  "match_delimiter r = (mo, rest) \<Longrightarrow> \<exists>out. convert m mo = Inr out"
  by (cases r)
    (auto simp: match_delimiter_def convert_def mo_invalid_def mo_escaped_def mo_named_def
       mo_braced_def no_groups_def Let_def id_start_ident_char
      split: if_splits option.splits)

lemma safe_substitute_returns: "\<exists>out. safe_substitute m s = Inr out"
  unfolding safe_substitute_def
proof (induction s rule: template_tokens.induct)
  case 1
  show ?case by simp
next
  case (2 c cs)
  show ?case
  proof (cases "c = cp CHR ''$''")
    case False
    with 2 show ?thesis by auto
  next
    case True
    obtain mo rest where mr: "match_delimiter cs = (mo, rest)" by (cases "match_delimiter cs")
    from convert_match_delimiter [OF mr] obtain v where "convert m mo = Inr v" by blast
    moreover from 2(1) [OF True mr [symmetric]]
    obtain out where "substitute_tokens m (template_tokens rest) = Inr out" by blast
    ultimately show ?thesis using True mr by simp
  qed
qed

lemma convert_braced:
  "k \<noteq> [] \<Longrightarrow> convert m (mo_braced k) = Inr (case m k of Some v \<Rightarrow> v | None \<Rightarrow> ustr ''${'' @ k @ ustr ''}'')"
  by (simp add: convert_def mo_braced_def no_groups_def split: option.splits)

lemma convert_invalid: "convert m mo_invalid = Inr (ustr ''$'')"
  by (simp add: convert_def mo_invalid_def no_groups_def)

subsection \<open>The context and the substitution of a placeholder\<close>

lemma fold_context_lookup:
  fixes f :: "'v \<Rightarrow> 'w" and ctx0 :: "'k \<rightharpoonup> 'w"
  shows "fold (\<lambda>(key, val) ctx. ctx(key \<mapsto> f val)) kvs ctx0 k =
     (case map_of (rev kvs) k of Some v \<Rightarrow> Some (f v) | None \<Rightarrow> ctx0 k)"
proof -
  define g where "g = (\<lambda>(key, val) (ctx :: 'k \<rightharpoonup> 'w). ctx(key \<mapsto> f val))"
  have "fold g kvs ctx0 k =
     (case map_of (rev kvs) k of Some v \<Rightarrow> Some (f v) | None \<Rightarrow> ctx0 k)"
  proof (induction kvs arbitrary: ctx0)
    case Nil
    show ?case by simp
  next
    case (Cons a kvs)
    obtain k' v' where a: "a = (k', v')" by (cases a)
    have "fold g (a # kvs) ctx0 k = fold g kvs (ctx0(k' \<mapsto> f v')) k"
      by (simp add: a g_def)
    also have "\<dots> = (case map_of (rev kvs) k of
          Some v \<Rightarrow> Some (f v) | None \<Rightarrow> (ctx0(k' \<mapsto> f v')) k)"
      by (rule Cons.IH)
    also have "\<dots> = (case map_of (rev (a # kvs)) k of
          Some v \<Rightarrow> Some (f v) | None \<Rightarrow> ctx0 k)"
      by (simp add: a map_add_def split: option.splits)
    finally show ?case .
  qed
  then show ?thesis by (simp add: g_def)
qed

lemma build_context_provided:
  assumes "distinct (map fst kvs)" and "(k, v) \<in> set kvs"
  shows "build_context repr_str ts hm (JDict kvs) k = Some (format_value repr_str v)"
proof -
  from assms have "map_of (rev kvs) k = Some v"
    by (simp add: distinct_rev rev_map [symmetric])
  then show ?thesis by (simp add: build_context_def fold_context_lookup)
qed

lemma safe_substitute_placeholder:
  assumes pre: "pre = [] \<or> last pre \<noteq> cp CHR ''$''"
    and k: "k \<noteq> []" "\<forall>c\<in>set k. ident_char c"
    and a: "safe_substitute m pre = Inr a" and b: "safe_substitute m post = Inr b"
  shows "safe_substitute m (pre @ ustr ''${'' @ k @ ustr ''}'' @ post) =
     Inr (a @ (if id_start (hd k)
               then (case m k of Some v \<Rightarrow> v | None \<Rightarrow> ustr ''${'' @ k @ ustr ''}'')
               else ustr ''${'' @ k @ ustr ''}'') @ b)"
proof -
  have split: "template_tokens (pre @ ustr ''${'' @ k @ ustr ''}'' @ post) =
      template_tokens pre @ template_tokens (ustr ''${'' @ k @ ustr ''}'' @ post)"
    using template_tokens_append [OF pre, of "ustr ''{'' @ k @ ustr ''}'' @ post"] by simp
  show ?thesis
  proof (cases "id_start (hd k)")
    case True
    from template_tokens_braced [OF k(1) True k(2), of post] a b k(1) True show ?thesis
      unfolding safe_substitute_def split
      by (simp add: substitute_tokens_append convert_braced)
  next
    case False
    then have "k = [] \<or> \<not> id_start (hd k)" by simp
    from template_tokens_not_identifier [OF this k(2), of post] a b False show ?thesis
      unfolding safe_substitute_def split
      by (simp add: substitute_tokens_append convert_invalid substitute_tokens_literals)
  qed
qed




subsection \<open>The formatting of a value\<close>



section \<open>Properties of the company profiles\<close>

subsection \<open>The name of the data file\<close>

lemma set_strip: "set (strip s) \<subseteq> set s"
proof -
  have "set (strip s) = set (dropWhile isspace (rev (dropWhile isspace s)))"
    by (simp add: strip_def)
  also have "\<dots> \<subseteq> set (rev (dropWhile isspace s))" by (auto dest: set_dropWhileD)
  also have "\<dots> \<subseteq> set s" by (auto dest: set_dropWhileD)
  finally show ?thesis .
qed

lemma strip_ends:
  "strip s \<noteq> [] \<Longrightarrow> \<not> isspace (hd (strip s)) \<and> \<not> isspace (last (strip s))"
proof -
  assume ne: "strip s \<noteq> []"
  let ?d = "dropWhile isspace s" and ?e = "dropWhile isspace (rev (dropWhile isspace s))"
  from ne have e: "?e \<noteq> []" by (simp add: strip_def)
  then have l: "\<not> isspace (hd ?e)" by (rule hd_dropWhile)
  from e have "last (strip s) = hd ?e" by (simp add: strip_def last_rev)
  with l have 1: "\<not> isspace (last (strip s))" by simp
  have "rev ?d \<noteq> []"
  proof
    assume "rev ?d = []"
    then have "?e = dropWhile isspace []" by (simp only:)
    with e show False by simp
  qed
  then have d: "?d \<noteq> []" by (simp only: rev_is_Nil_conv not_False_eq_True)
  then have hd: "\<not> isspace (hd ?d)" by (rule hd_dropWhile)
  from d have "last (rev ?d) = hd ?d" by (simp add: last_rev)
  moreover have "rev ?d = takeWhile isspace (rev ?d) @ ?e" by simp
  ultimately have "last ?e = hd ?d" using e by (metis last_appendR)
  moreover from e have "hd (strip s) = last ?e" by (simp add: strip_def hd_rev)
  ultimately show ?thesis using hd 1 by simp
qed

lemma isspace_space: "isspace (cp CHR '' '')"
  by (simp add: isspace_def cp_def)

text \<open>
  Claim C7, as amended. The name \<open>process_company\<close> derives from a company name is the
  name with every character dropped that is not alphanumeric, a space, a hyphen or an
  underscore, stripped of surrounding white space, with every remaining space turned into
  an underscore, and followed by \<open>_data.json\<close>. Its characters are alphanumeric in the
  sense of \<open>str.isalnum\<close>, hyphens and underscores; they are ASCII when the company name
  is. As the claim is written (only ASCII alphanumerics) it fails for a name with a
  letter outside ASCII, which \<open>str.isalnum\<close> accepts.
\<close>

theorem safe_name_spec:
  "safe_name uni name =
     replace_char (cp CHR '' '') (cp CHR ''_'')
       (strip (filter (\<lambda>c. isalnum uni c \<or> c = cp CHR '' '' \<or> c = cp CHR ''-'' \<or> c = cp CHR ''_'')
          name))
   \<and> (\<forall>c\<in>set (safe_name uni name). isalnum uni c \<or> c = cp CHR ''-'' \<or> c = cp CHR ''_'')
   \<and> ((\<forall>c\<in>set name. c < 128) \<longrightarrow>
        (\<forall>c\<in>set (safe_name uni name). ascii_alnum c \<or> c = cp CHR ''-'' \<or> c = cp CHR ''_''))
   \<and> cp CHR '' '' \<notin> set (safe_name uni name)
   \<and> data_file_name uni name = safe_name uni name @ ustr ''_data.json''"
proof -
  define kept where "kept = strip (filter
      (\<lambda>c. isalnum uni c \<or> c \<in> {cp CHR '' '', cp CHR ''-'', cp CHR ''_''}) name)"
  have kept: "c \<in> set name \<and>
      (isalnum uni c \<or> c = cp CHR '' '' \<or> c = cp CHR ''-'' \<or> c = cp CHR ''_'')"
    if "c \<in> set kept" for c
    using that set_strip unfolding kept_def by fastforce
  have 1: "safe_name uni name =
     replace_char (cp CHR '' '') (cp CHR ''_'')
       (strip (filter (\<lambda>c. isalnum uni c \<or> c = cp CHR '' '' \<or> c = cp CHR ''-'' \<or> c = cp CHR ''_'')
          name))"
    by (simp add: safe_name_def)
  have s: "set (safe_name uni name) = (\<lambda>c. if c = cp CHR '' '' then cp CHR ''_'' else c) ` set kept"
    by (simp add: safe_name_def replace_char_def kept_def)
  have 2: "\<forall>c\<in>set (safe_name uni name). isalnum uni c \<or> c = cp CHR ''-'' \<or> c = cp CHR ''_''"
    unfolding s using kept by auto
  have 3: "(\<forall>c\<in>set name. c < 128) \<longrightarrow>
        (\<forall>c\<in>set (safe_name uni name). ascii_alnum c \<or> c = cp CHR ''-'' \<or> c = cp CHR ''_'')"
  proof (intro impI ballI)
    fix c assume a: "\<forall>c\<in>set name. c < 128" and c: "c \<in> set (safe_name uni name)"
    from c obtain d where d: "d \<in> set kept" and cd: "c = (if d = cp CHR '' '' then cp CHR ''_'' else d)"
      unfolding s by blast
    from kept [OF d] a have "d < 128" by blast
    then have "isalnum uni d = ascii_alnum d" by (simp add: isalnum_def)
    with kept [OF d] cd show "ascii_alnum c \<or> c = cp CHR ''-'' \<or> c = cp CHR ''_''" by auto
  qed
  have 4: "cp CHR '' '' \<notin> set (safe_name uni name)"
    unfolding s by auto
  have 5: "data_file_name uni name = safe_name uni name @ ustr ''_data.json''"
    by (simp add: data_file_name_def)
  from 1 2 3 4 5 show ?thesis by blast
qed

theorem safe_name_spec_witness:
  "safe_name latin1_alnum (ustr '' Rovio Entertainment, Inc. '') = ustr ''Rovio_Entertainment_Inc''
   \<and> data_file_name latin1_alnum (ustr '' Rovio Entertainment, Inc. '')
       = ustr ''Rovio_Entertainment_Inc_data.json''"
proof -
  have a: "\<forall>c\<in>set (ustr '' Rovio Entertainment, Inc. ''). c < 128" by (simp add: cp_def)
  have e: "safe_name latin1_alnum (ustr '' Rovio Entertainment, Inc. '')
      = ustr ''Rovio_Entertainment_Inc''" by code_simp
  from safe_name_spec [of latin1_alnum "ustr '' Rovio Entertainment, Inc. ''"] a e
  show ?thesis by simp
qed

theorem safe_name_counterexample:
  "safe_name latin1_alnum (ustr ''Nestl'' @ [233]) = ustr ''Nestl'' @ [233]
   \<and> \<not> (ascii_alnum 233 \<or> 233 = cp CHR ''-'' \<or> 233 = cp CHR ''_'')"
  by code_simp

subsection \<open>The retries of a query\<close>

lemma attempts_step:
  "attempts (a # rest) url p w =
     (let w1 = w\<lparr>n_posts := Suc (n_posts w), trace := trace w @ [HttpPost url (PromptBody p)]\<rparr>
      in if status_of (http_responses w (n_posts w)) = Some 200
         then (extract_text (body_of (http_responses w (n_posts w))), w1)
         else if status_of (http_responses w (n_posts w)) = Some 429
         then attempts rest url p (w1\<lparr>trace := trace w1 @ [Sleep 20]\<rparr>)
         else (None, w1))"
  by (cases "http_responses w (n_posts w)")
    (simp_all add: requests_post_def do_event_def status_of_def body_of_def Let_def)

lemma attempts_three:
  "attempts [a0, a1, a2] url p w =
   (let P = HttpPost url (PromptBody p);
        r0 = http_responses w (n_posts w);
        r1 = http_responses w (n_posts w + 1);
        r2 = http_responses w (n_posts w + 2)
    in if status_of r0 = Some 200
       then (extract_text (body_of r0), w\<lparr>n_posts := n_posts w + 1, trace := trace w @ [P]\<rparr>)
       else if status_of r0 \<noteq> Some 429
       then (None, w\<lparr>n_posts := n_posts w + 1, trace := trace w @ [P]\<rparr>)
       else if status_of r1 = Some 200
       then (extract_text (body_of r1),
             w\<lparr>n_posts := n_posts w + 2, trace := trace w @ [P, Sleep 20, P]\<rparr>)
       else if status_of r1 \<noteq> Some 429
       then (None, w\<lparr>n_posts := n_posts w + 2, trace := trace w @ [P, Sleep 20, P]\<rparr>)
       else if status_of r2 = Some 200
       then (extract_text (body_of r2),
             w\<lparr>n_posts := n_posts w + 3, trace := trace w @ [P, Sleep 20, P, Sleep 20, P]\<rparr>)
       else if status_of r2 \<noteq> Some 429
       then (None, w\<lparr>n_posts := n_posts w + 3, trace := trace w @ [P, Sleep 20, P, Sleep 20, P]\<rparr>)
       else (None, w\<lparr>n_posts := n_posts w + 3,
                      trace := trace w @ [P, Sleep 20, P, Sleep 20, P, Sleep 20]\<rparr>))"
  by (simp add: attempts_step Let_def del: attempts.simps(2))


lemma new_events_append: "trace w' = trace w @ evs \<Longrightarrow> new_events w w' = evs"
  by (simp add: new_events_def)

lemma attempts_three_outcome:
  "\<exists>res w'. attempts [a0, a1, a2] url p w = (res, w')
    \<and> files w' = files w \<and> http_responses w' = http_responses w
    \<and> trace w' = trace w @ new_events w w'
    \<and> (res, new_events w w') =
        spec_attempts 3 (HttpPost url (PromptBody p))
          [http_responses w (n_posts w), http_responses w (n_posts w + 1),
           http_responses w (n_posts w + 2)]"
  by (simp add: attempts_three Let_def new_events_def numeral_3_eq_3 del: attempts.simps)

lemma spec_attempts_posts:
  "length (filter is_post (snd (spec_attempts n (HttpPost url (PromptBody p)) answers))) \<le> n
   \<and> filter is_prompt_post (snd (spec_attempts n (HttpPost url (PromptBody p)) answers))
     = filter is_post (snd (spec_attempts n (HttpPost url (PromptBody p)) answers))"
  by (induction n "HttpPost url (PromptBody p)" answers rule: spec_attempts.induct)
    (auto simp: is_post_def is_prompt_post_def split: prod.splits)

lemma find_working_model_spec:
  "\<exists>res gen' w'. find_working_model gen w = (res, gen', w')
     \<and> files w' = files w \<and> http_responses w' = http_responses w
     \<and> n_posts w' = Suc (n_posts w)
     \<and> trace w' = trace w @
          [HttpPost (model_url (ustr ''gemini-2.5-flash'') @ ustr ''?key='' @ api_key gen) TestBody]
     \<and> api_key gen' = api_key gen
     \<and> (res = None \<or> res = Some (model_url (ustr ''gemini-2.5-flash'')))"
  by (cases "http_responses w (n_posts w)")
    (simp_all add: find_working_model_def models_def requests_post_def do_event_def)



subsection \<open>Saving one profile\<close>

lemma write_file_map_of: "map_of (write_file name c fs) = (map_of fs)(name \<mapsto> c)"
  by (induction fs) (auto simp: fun_eq_iff)

lemma query_gemini_frame:
  "\<exists>res gen' w'. query_gemini gen prompt w = (res, gen', w') \<and> files w' = files w"
proof (cases "working_model gen")
  case (Some m)
  from attempts_three_outcome [of 0 1 2 "model_url m @ ustr ''?key='' @ api_key gen" prompt w]
  obtain res w' where
    "attempts [0, 1, 2] (model_url m @ ustr ''?key='' @ api_key gen) prompt w = (res, w')"
    and "files w' = files w" by blast
  with Some show ?thesis by (simp add: query_gemini_def)
next
  case None
  from find_working_model_spec [of gen w] obtain base gen1 w1 where
    f: "find_working_model gen w = (base, gen1, w1)" and f1: "files w1 = files w"
    by blast
  show ?thesis
  proof (cases base)
    case n: None
    with f f1 None show ?thesis by (simp add: query_gemini_def)
  next
    case (Some url)
    from attempts_three_outcome [of 0 1 2 "url @ ustr ''?key='' @ api_key gen1" prompt w1]
    obtain res w2 where
      "attempts [0, 1, 2] (url @ ustr ''?key='' @ api_key gen1) prompt w1 = (res, w2)"
      and "files w2 = files w1"
      by blast
    with f f1 Some None show ?thesis by (simp add: query_gemini_def)
  qed
qed

lemma generate_company_info_frame:
  "generate_company_info json_loads gen name flds w = (info, gen', w') \<Longrightarrow> files w' = files w"
  using query_gemini_frame [of gen "build_prompt name flds" w]
  by (auto simp: generate_company_info_def split: option.splits)




section \<open>Properties of the PDF compiler\<close>

lemma compile_loop_spec:
  "compile_loop fs sc failed w = (sc', failed', w') \<Longrightarrow>
     trace w' = trace w @ map RenderPdf fs
     \<and> sc' = sc + length (filter (render_ok w) fs)
     \<and> render_ok w' = render_ok w"
proof (induction fs arbitrary: sc failed w)
  case Nil
  then show ?case by simp
next
  case (Cons f fs)
  show ?case
  proof (cases "render_ok w f")
    case True
    let ?w1 = "do_event (RenderPdf f) w"
    let ?w2 = "?w1\<lparr>files := write_file (path_stem f @ ustr ''.pdf'') Binary (files ?w1)\<rparr>"
    from Cons.prems True have "compile_loop fs (sc + 1) failed ?w2 = (sc', failed', w')"
      by (simp add: Let_def)
    from Cons.IH [OF this] True show ?thesis by (simp add: do_event_def)
  next
    case False
    let ?w1 = "do_event (RenderPdf f) w"
    from Cons.prems False have "compile_loop fs sc (failed @ [f]) ?w1 = (sc', failed', w')"
      by (simp add: Let_def)
    from Cons.IH [OF this] False show ?thesis by (simp add: do_event_def)
  qed
qed

text \<open>
  Claim C10. \<open>compile_html_to_pdf\<close> returns \<open>False\<close>, and does nothing, when WeasyPrint is
  not available or the directory does not exist; otherwise it gives every HTML file of
  the directory to the renderer, in the order of the listing and whatever the outcome of
  the files before; and it returns \<open>True\<close> exactly when at least one file was rendered.
\<close>

theorem compile_html_to_pdf_spec:
  "\<exists>ok w'. compile_html_to_pdf w = (ok, w')
     \<and> (\<not> weasyprint_available w \<or> \<not> dir_exists w \<longrightarrow> \<not> ok \<and> w' = w)
     \<and> (weasyprint_available w \<and> dir_exists w \<longrightarrow>
          trace w' = trace w @ map RenderPdf (html_files w))
     \<and> (ok \<longleftrightarrow> weasyprint_available w \<and> dir_exists w
               \<and> (\<exists>f \<in> set (html_files w). render_ok w f))"
proof (cases "weasyprint_available w \<and> dir_exists w")
  case False
  then show ?thesis by (auto simp: compile_html_to_pdf_def)
next
  case True
  obtain sc failed w' where l: "compile_loop (html_files w) 0 [] w = (sc, failed, w')"
    by (cases "compile_loop (html_files w) 0 [] w") auto
  from compile_loop_spec [OF l]
  have t: "trace w' = trace w @ map RenderPdf (html_files w)"
    and c: "sc = length (filter (render_ok w) (html_files w))" by simp_all
  from c have "0 < sc \<longleftrightarrow> (\<exists>f \<in> set (html_files w). render_ok w f)"
    by (simp add: filter_empty_conv)
  with True l t show ?thesis by (simp add: compile_html_to_pdf_def)
qed


theorem compile_html_to_pdf_spec_witness:
  "fst (compile_html_to_pdf (sample_world
      \<lparr>files := [(ustr ''a_profile.html'', Text []), (ustr ''a_data.json'', Json JNull),
                 (ustr ''b_profile.html'', Text [])],
       render_ok := (\<lambda>f. f = ustr ''b_profile.html'')\<rparr>))
   \<and> trace (snd (compile_html_to_pdf (sample_world
      \<lparr>files := [(ustr ''a_profile.html'', Text []), (ustr ''a_data.json'', Json JNull),
                 (ustr ''b_profile.html'', Text [])],
       render_ok := (\<lambda>f. f = ustr ''b_profile.html'')\<rparr>)))
     = [RenderPdf (ustr ''a_profile.html''), RenderPdf (ustr ''b_profile.html'')]"
proof -
  let ?w = "sample_world
      \<lparr>files := [(ustr ''a_profile.html'', Text []), (ustr ''a_data.json'', Json JNull),
                 (ustr ''b_profile.html'', Text [])],
       render_ok := (\<lambda>f. f = ustr ''b_profile.html'')\<rparr>"
  have h: "html_files ?w = [ustr ''a_profile.html'', ustr ''b_profile.html'']"
    by (simp add: html_files_def glob_suffix_def endswith_def sample_world_def)
  have a: "weasyprint_available ?w \<and> dir_exists ?w" "trace ?w = []"
    "render_ok ?w (ustr ''b_profile.html'')"
    by (simp_all add: sample_world_def)
  from compile_html_to_pdf_spec [of ?w] obtain ok w' where
    c: "compile_html_to_pdf ?w = (ok, w')"
    and t: "weasyprint_available ?w \<and> dir_exists ?w \<longrightarrow>
          trace w' = trace ?w @ map RenderPdf (html_files ?w)"
    and o: "ok \<longleftrightarrow> weasyprint_available ?w \<and> dir_exists ?w
               \<and> (\<exists>f \<in> set (html_files ?w). render_ok ?w f)"
    by blast
  from o a h have "ok" by simp
  moreover from t a h have "trace w' = [RenderPdf (ustr ''a_profile.html''),
      RenderPdf (ustr ''b_profile.html'')]" by simp
  ultimately show ?thesis using c by simp
qed

section \<open>Properties of the worker\<close>

subsection \<open>The trace of a step\<close>

lemma trace_do_event [simp]: "trace (do_event e w) = trace w @ [e]"
  by (simp add: do_event_def)

lemma trace_emit [simp]: "trace (emit s w) = trace w @ [Emit s]"
  by (simp add: emit_def)

lemma files_do_event [simp]: "files (do_event e w) = files w"
  by (simp add: do_event_def)

lemma files_emit [simp]: "files (emit s w) = files w"
  by (simp add: emit_def)

lemma check_running_trace: "check_running w = (b, w1) \<Longrightarrow> trace w1 = trace w"
  by (auto simp: check_running_def)

lemma check_running_files: "check_running w = (b, w1) \<Longrightarrow> files w1 = files w"
  by (auto simp: check_running_def)

lemma phases_append [simp]: "phases (a @ b) = phases a @ phases b"
  by (simp add: phases_def List.map_filter_def)

lemma phases_Nil [simp]: "phases [] = []"
  by (simp add: phases_def List.map_filter_def)

lemma phases_Cons:
  "phases (e # evs) = (case phase_of e of Some p \<Rightarrow> p # phases evs | None \<Rightarrow> phases evs)"
  by (simp add: phases_def List.map_filter_def split: option.splits)

lemma progress_values_append [simp]:
  "progress_values (a @ b) = progress_values a @ progress_values b"
  by (simp add: progress_values_def List.map_filter_def)

lemma progress_values_Nil [simp]: "progress_values [] = []"
  by (simp add: progress_values_def List.map_filter_def)

lemma progress_values_Cons:
  "progress_values (e # evs) =
     (case progress_of e of Some v \<Rightarrow> v # progress_values evs | None \<Rightarrow> progress_values evs)"
  by (simp add: progress_values_def List.map_filter_def split: option.splits)

text \<open>The events of a step that reports nothing: all of one phase, none of them a signal.\<close>

definition silent :: "nat \<Rightarrow> event list \<Rightarrow> bool" where
  "silent p evs \<longleftrightarrow> (\<forall>e \<in> set evs. phase_of e = Some p \<and> (\<forall>s. e \<noteq> Emit s))"

lemma silent_Nil [simp]: "silent p []"
  by (simp add: silent_def)

lemma silent_Cons [simp]:
  "silent p (e # evs) \<longleftrightarrow> phase_of e = Some p \<and> (\<forall>s. e \<noteq> Emit s) \<and> silent p evs"
  by (auto simp: silent_def)

lemma silent_append [simp]: "silent p (a @ b) \<longleftrightarrow> silent p a \<and> silent p b"
  by (auto simp: silent_def)

lemma silent_phases: "silent p evs \<Longrightarrow> set (phases evs) \<subseteq> {p}"
  by (induction evs) (auto simp: silent_def phases_Cons split: option.splits)

lemma silent_progress: "silent p evs \<Longrightarrow> progress_values evs = []"
proof (induction evs)
  case Nil
  show ?case by simp
next
  case (Cons e evs)
  then have "\<forall>s. e \<noteq> Emit s" and "silent p evs" by (auto simp: silent_def)
  then have "progress_of e = None" by (cases e rule: progress_of.cases) auto
  with Cons \<open>silent p evs\<close> show ?case by (simp add: progress_values_Cons)
qed

lemma ai_items_append [simp]: "ai_items (a @ b) = ai_items a @ ai_items b"
  by (simp add: ai_items_def List.map_filter_def)

lemma ai_items_Nil [simp]: "ai_items [] = []"
  by (simp add: ai_items_def List.map_filter_def)

lemma ai_items_Cons:
  "ai_items (e # evs) = (case ai_item e of Some c \<Rightarrow> c # ai_items evs | None \<Rightarrow> ai_items evs)"
  by (simp add: ai_items_def List.map_filter_def split: option.splits)

lemma logo_items_append [simp]: "logo_items (a @ b) = logo_items a @ logo_items b"
  by (simp add: logo_items_def List.map_filter_def)

lemma logo_items_Nil [simp]: "logo_items [] = []"
  by (simp add: logo_items_def List.map_filter_def)

lemma logo_items_Cons:
  "logo_items (e # evs) =
     (case logo_item e of Some c \<Rightarrow> c # logo_items evs | None \<Rightarrow> logo_items evs)"
  by (simp add: logo_items_def List.map_filter_def split: option.splits)

lemma html_items_append [simp]: "html_items (a @ b) = html_items a @ html_items b"
  by (simp add: html_items_def)

lemma html_items_Nil [simp]: "html_items [] = []"
  by (simp add: html_items_def)

lemma finished_append [simp]: "finished (a @ b) \<longleftrightarrow> finished a \<or> finished b"
  by (auto simp: finished_def)

lemma finished_Nil [simp]: "\<not> finished []"
  by (simp add: finished_def)

lemma silent_ai_items: "silent p evs \<Longrightarrow> ai_items evs = []"
proof (induction evs)
  case Nil
  show ?case by simp
next
  case (Cons e evs)
  then have "\<forall>s. e \<noteq> Emit s" and "silent p evs" by auto
  then have "ai_item e = None" by (cases e rule: ai_item.cases) auto
  with Cons \<open>silent p evs\<close> show ?case by (simp add: ai_items_Cons)
qed

lemma silent_logo_items: "silent p evs \<Longrightarrow> logo_items evs = []"
proof (induction evs)
  case Nil
  show ?case by simp
next
  case (Cons e evs)
  then have "\<forall>s. e \<noteq> Emit s" and "silent p evs" by auto
  then have "logo_item e = None" by (cases e rule: logo_item.cases) auto
  with Cons \<open>silent p evs\<close> show ?case by (simp add: logo_items_Cons)
qed

lemma silent_html_items: "silent p evs \<Longrightarrow> html_items evs = []"
proof (induction evs)
  case Nil
  show ?case by simp
next
  case (Cons e evs)
  then have "\<forall>s. e \<noteq> Emit s" and "silent p evs" by auto
  then have "\<not> html_item e" by (cases e rule: html_item.cases) auto
  with Cons \<open>silent p evs\<close> show ?case by (simp add: html_items_def)
qed

lemma silent_not_finished: "silent p evs \<Longrightarrow> \<not> finished evs"
  by (auto simp: silent_def finished_def)

lemma spec_attempts_silent:
  "silent 1 (snd (spec_attempts n (HttpPost url b) answers))"
  by (induction n "HttpPost url b" answers rule: spec_attempts.induct)
    (auto simp: silent_def split: prod.splits)

lemma query_gemini_silent:
  "query_gemini gen prompt w = (res, gen', w') \<Longrightarrow>
     \<exists>evs. trace w' = trace w @ evs \<and> silent 1 evs"
proof -
  assume q: "query_gemini gen prompt w = (res, gen', w')"
  have at: "\<exists>evs. trace w2 = trace w1 @ evs \<and> silent 1 evs"
    if "attempts [0, 1, 2] url prompt w1 = (r, w2)" for url r and w1 w2 :: "'a world_scheme"
  proof -
    from attempts_three_outcome [of 0 1 2 url prompt w1] that
    have t: "trace w2 = trace w1 @ new_events w1 w2"
      and o: "(r, new_events w1 w2) = spec_attempts 3 (HttpPost url (PromptBody prompt))
          [http_responses w1 (n_posts w1), http_responses w1 (n_posts w1 + 1),
           http_responses w1 (n_posts w1 + 2)]" by auto
    from o have "new_events w1 w2 = snd (spec_attempts 3 (HttpPost url (PromptBody prompt))
          [http_responses w1 (n_posts w1), http_responses w1 (n_posts w1 + 1),
           http_responses w1 (n_posts w1 + 2)])" by (metis snd_conv)
    with spec_attempts_silent have "silent 1 (new_events w1 w2)" by simp
    with t show ?thesis by blast
  qed
  show ?thesis
  proof (cases "working_model gen")
    case (Some m)
    with q obtain r where
      "attempts [0, 1, 2] (model_url m @ ustr ''?key='' @ api_key gen) prompt w = (r, w')"
      by (auto simp: query_gemini_def split: prod.splits)
    from at [OF this] show ?thesis .
  next
    case None
    from find_working_model_spec [of gen w] obtain base gen1 w1 where
      f: "find_working_model gen w = (base, gen1, w1)"
      and t1: "trace w1 = trace w @
          [HttpPost (model_url (ustr ''gemini-2.5-flash'') @ ustr ''?key='' @ api_key gen) TestBody]"
      by blast
    have s1: "silent 1
      [HttpPost (model_url (ustr ''gemini-2.5-flash'') @ ustr ''?key='' @ api_key gen) TestBody]"
      by (simp add: silent_def)
    show ?thesis
    proof (cases base)
      case n: None
      with q f None have "w' = w1" by (simp add: query_gemini_def)
      with t1 s1 show ?thesis by blast
    next
      case (Some url)
      with q f None obtain r where
        "attempts [0, 1, 2] (url @ ustr ''?key='' @ api_key gen1) prompt w1 = (r, w')"
        by (auto simp: query_gemini_def split: prod.splits)
      from at [OF this] obtain evs where "trace w' = trace w1 @ evs" "silent 1 evs" by blast
      with t1 s1 have "trace w' = trace w @
        ([HttpPost (model_url (ustr ''gemini-2.5-flash'') @ ustr ''?key='' @ api_key gen) TestBody]
          @ evs)"
        and "silent 1
        ([HttpPost (model_url (ustr ''gemini-2.5-flash'') @ ustr ''?key='' @ api_key gen) TestBody]
          @ evs)" by simp_all
      then show ?thesis by blast
    qed
  qed
qed

lemma process_company_silent:
  "process_company u jl gen c rf w = (r, gen', w') \<Longrightarrow>
     \<exists>evs. trace w' = trace w @ evs \<and> silent 1 evs"
proof -
  assume p: "process_company u jl gen c rf w = (r, gen', w')"
  obtain res g1 w1 where q: "query_gemini gen (build_prompt c rf) (mkdir w) = (res, g1, w1)"
    by (cases "query_gemini gen (build_prompt c rf) (mkdir w)") auto
  from query_gemini_silent [OF q] obtain evs where
    e: "trace w1 = trace w @ evs" "silent 1 evs" by (auto simp: mkdir_def)
  from p q have "w' = w1 \<or>
     (\<exists>i. w' = do_event (WriteData (data_file_name u c))
              (w1\<lparr>files := write_file (data_file_name u c) (Json i) (files w1)\<rparr>))"
    by (auto simp: process_company_def generate_company_info_def Let_def
        split: option.splits if_splits)
  then show ?thesis
  proof
    assume "w' = w1"
    with e show ?thesis by blast
  next
    assume "\<exists>i. w' = do_event (WriteData (data_file_name u c))
              (w1\<lparr>files := write_file (data_file_name u c) (Json i) (files w1)\<rparr>)"
    with e have "trace w' = trace w @ (evs @ [WriteData (data_file_name u c)])"
      and "silent 1 (evs @ [WriteData (data_file_name u c)])"
      by (auto simp: silent_def)
    then show ?thesis by blast
  qed
qed

lemma cooldown_silent:
  "cooldown k w = (out, w') \<Longrightarrow>
     (\<exists>evs. trace w' = trace w @ evs \<and> silent 1 evs) \<and> (\<forall>e. out \<noteq> Raised e)"
proof (induction k arbitrary: w)
  case 0
  then show ?case by auto
next
  case (Suc k)
  obtain b w1 where c: "check_running w = (b, w1)" by (cases "check_running w") auto
  note t1 = check_running_trace [OF c]
  show ?case
  proof (cases b)
    case False
    with Suc.prems c t1 show ?thesis by auto
  next
    case True
    with Suc.prems c have "cooldown k (do_event (Sleep 1) w1) = (out, w')" by simp
    from Suc.IH [OF this] obtain evs where
      "trace w' = trace (do_event (Sleep 1) w1) @ evs" "silent 1 evs" "\<forall>e. out \<noteq> Raised e"
      by blast
    with t1 have "trace w' = trace w @ (Sleep 1 # evs)" "silent 1 (Sleep 1 # evs)"
      by (simp_all add: silent_def)
    with \<open>\<forall>e. out \<noteq> Raised e\<close> show ?thesis by blast
  qed
qed


text \<open>What one handled item of a loop adds: one progress value, and events of its phase.\<close>

lemma phase1_loop_trace:
  "phase1_loop wk rf T items gen step w = (out, w') \<Longrightarrow>
    \<exists>evs j. trace w' = trace w @ evs \<and> j \<le> length items
      \<and> progress_values evs =
          map (\<lambda>k. progress_value (float_round wk) k T) [Suc step ..< Suc step + j]
      \<and> set (phases evs) \<subseteq> {1} \<and> \<not> finished evs
      \<and> (\<forall>e. out \<noteq> Raised e)
      \<and> (\<forall>g s. out = Continue (g, s) \<longrightarrow>
            j = length items \<and> s = step + j \<and> ai_items evs = map snd items)"
proof (induction items arbitrary: gen step w)
  case Nil
  then have "w' = w" "out = Continue (gen, step)" by simp_all
  then have "trace w' = trace w @ [] \<and> (0::nat) \<le> length ([] :: (nat \<times> ustring) list)
      \<and> progress_values [] =
          map (\<lambda>k. progress_value (float_round wk) k T) [Suc step ..< Suc step + 0]
      \<and> set (phases []) \<subseteq> {1} \<and> \<not> finished []
      \<and> (\<forall>e. out \<noteq> Raised e)
      \<and> (\<forall>g s. out = Continue (g, s) \<longrightarrow>
            0 = length ([] :: (nat \<times> ustring) list) \<and> s = step + 0 \<and> ai_items [] = map snd [])"
    by simp
  then show ?case by blast
next
  case (Cons item rest)
  obtain i c where item: "item = (i, c)" by (cases item)
  let ?pv = "\<lambda>k. progress_value (float_round wk) k T"
  obtain b w1 where cr: "check_running w = (b, w1)" by (cases "check_running w") auto
  note t1 = check_running_trace [OF cr]
  show ?case
  proof (cases b)
    case False
    with Cons.prems cr item have "out = Returned" "w' = w1" by simp_all
    with t1 have "trace w' = trace w @ [] \<and> (0::nat) \<le> length (item # rest)
      \<and> progress_values [] = map ?pv [Suc step ..< Suc step + 0]
      \<and> set (phases []) \<subseteq> {1} \<and> \<not> finished []
      \<and> (\<forall>e. out \<noteq> Raised e)
      \<and> (\<forall>g s. out = Continue (g, s) \<longrightarrow>
            0 = length (item # rest) \<and> s = step + 0 \<and> ai_items [] = map snd (item # rest))"
      by simp
    then show ?thesis by blast
  next
    case True
    let ?w1e = "emit (Log (AISearching c)) w1"
    obtain success jp g' w2 where
      pc: "process_company (lib_alnum wk) (lib_json_loads wk) gen c rf ?w1e = ((success, jp), g', w2)"
      by (cases "process_company (lib_alnum wk) (lib_json_loads wk) gen c rf ?w1e") auto
    from process_company_silent [OF pc] obtain pe where
      t2: "trace w2 = trace ?w1e @ pe" and spe: "silent 1 pe" by blast
    let ?w4 = "emit (Progress (?pv (Suc step)))
                 (emit (Log (if success then DataSaved else AIFailed)) w2)"
    define B where "B = Emit (Log (AISearching c)) # pe
        @ [Emit (Log (if success then DataSaved else AIFailed)), Emit (Progress (?pv (Suc step)))]"
    have t4: "trace ?w4 = trace w @ B" using t1 t2 by (simp add: B_def)
    have Bp: "progress_values B = [?pv (Suc step)]"
      using silent_progress [OF spe] by (simp add: B_def progress_values_Cons)
    have Bph: "set (phases B) \<subseteq> {1}"
      using silent_phases [OF spe] by (auto simp: B_def phases_Cons)
    have Bai: "ai_items B = [c]"
      using silent_ai_items [OF spe] by (simp add: B_def ai_items_Cons)
    have Bf: "\<not> finished B"
      using silent_not_finished [OF spe] by (simp add: B_def finished_def)
    have mid: "\<exists>wm M. trace wm = trace w @ M \<and> progress_values M = [?pv (Suc step)]
        \<and> set (phases M) \<subseteq> {1} \<and> ai_items M = [c] \<and> \<not> finished M
        \<and> ((out = Returned \<and> w' = wm)
            \<or> phase1_loop wk rf T rest g' (Suc step) wm = (out, w'))"
    proof (cases "int i < int (length (companies wk)) - 1")
      case False
      with Cons.prems cr item True pc
      have "phase1_loop wk rf T rest g' (Suc step) ?w4 = (out, w')"
        by (simp add: Let_def)
      with t4 Bp Bph Bai Bf show ?thesis by blast
    next
      case cd: True
      obtain o5 w5 where c5: "cooldown 10 (emit (Log Cooldown) ?w4) = (o5, w5)"
        by (cases "cooldown 10 (emit (Log Cooldown) ?w4)") auto
      from cooldown_silent [OF c5] obtain ce where
        t5: "trace w5 = trace (emit (Log Cooldown) ?w4) @ ce" and sce: "silent 1 ce"
        and nr: "\<forall>e. o5 \<noteq> Raised e" by blast
      define M where "M = B @ Emit (Log Cooldown) # ce"
      have tM: "trace w5 = trace w @ M" using t5 t4 by (simp add: M_def)
      have Mp: "progress_values M = [?pv (Suc step)]"
        using Bp silent_progress [OF sce] by (simp add: M_def progress_values_Cons)
      have Mph: "set (phases M) \<subseteq> {1}"
        using Bph silent_phases [OF sce] by (auto simp: M_def phases_Cons)
      have Mai: "ai_items M = [c]"
        using Bai silent_ai_items [OF sce] by (simp add: M_def ai_items_Cons)
      have Mf: "\<not> finished M"
        using Bf silent_not_finished [OF sce] by (simp add: M_def finished_def)
      from nr consider u where "o5 = Continue u" | "o5 = Returned" by (cases o5) auto
      then have "(out = Returned \<and> w' = w5)
            \<or> phase1_loop wk rf T rest g' (Suc step) w5 = (out, w')"
      proof cases
        case 1
        with Cons.prems cr item True pc cd c5 show ?thesis by (simp add: Let_def)
      next
        case 2
        with Cons.prems cr item True pc cd c5 show ?thesis by (simp add: Let_def)
      qed
      with tM Mp Mph Mai Mf show ?thesis by blast
    qed
    then obtain wm M where tm: "trace wm = trace w @ M"
      and Mp: "progress_values M = [?pv (Suc step)]"
      and Mph: "set (phases M) \<subseteq> {1}" and Mai: "ai_items M = [c]" and Mf: "\<not> finished M"
      and alt: "(out = Returned \<and> w' = wm)
            \<or> phase1_loop wk rf T rest g' (Suc step) wm = (out, w')" by blast
    from alt show ?thesis
    proof
      assume "out = Returned \<and> w' = wm"
      with tm Mp Mph Mf have "trace w' = trace w @ M \<and> (1::nat) \<le> length (item # rest)
        \<and> progress_values M = map ?pv [Suc step ..< Suc step + 1]
        \<and> set (phases M) \<subseteq> {1} \<and> \<not> finished M
        \<and> (\<forall>e. out \<noteq> Raised e)
        \<and> (\<forall>g s. out = Continue (g, s) \<longrightarrow>
              1 = length (item # rest) \<and> s = step + 1 \<and> ai_items M = map snd (item # rest))"
        by simp
      then show ?thesis by blast
    next
      assume "phase1_loop wk rf T rest g' (Suc step) wm = (out, w')"
      from Cons.IH [OF this] obtain evs j where
        te: "trace w' = trace wm @ evs" and j: "j \<le> length rest"
        and ep: "progress_values evs = map ?pv [Suc (Suc step) ..< Suc (Suc step) + j]"
        and eph: "set (phases evs) \<subseteq> {1}" and ef: "\<not> finished evs"
        and enr: "\<forall>e. out \<noteq> Raised e"
        and ec: "\<forall>g s. out = Continue (g, s) \<longrightarrow>
            j = length rest \<and> s = Suc step + j \<and> ai_items evs = map snd rest" by blast
      have up: "[Suc step ..< Suc step + Suc j] = Suc step # [Suc (Suc step) ..< Suc (Suc step) + j]"
        by (simp add: upt_conv_Cons)
      from te tm have 1: "trace w' = trace w @ (M @ evs)" by simp
      from j have 2: "Suc j \<le> length (item # rest)" by simp
      from Mp ep up have 3: "progress_values (M @ evs) = map ?pv [Suc step ..< Suc step + Suc j]"
        by simp
      from Mph eph have 4: "set (phases (M @ evs)) \<subseteq> {1}" by auto
      from Mf ef have 5: "\<not> finished (M @ evs)" by simp
      from ec Mai item have 6: "\<forall>g s. out = Continue (g, s) \<longrightarrow>
            Suc j = length (item # rest) \<and> s = step + Suc j
            \<and> ai_items (M @ evs) = map snd (item # rest)" by auto
      from 1 2 3 4 5 6 enr show ?thesis by blast
    qed
  qed
qed

lemma acquire_logo_trace:
  "acquire_logo f w = (out, w') \<Longrightarrow>
     \<exists>evs. trace w' = trace w @ evs \<and> set (phases evs) \<subseteq> {2} \<and> progress_values evs = []
       \<and> \<not> finished evs \<and> logo_items evs = [company_name_of f] \<and> out \<noteq> Returned"
proof -
  assume a: "acquire_logo f w = (out, w')"
  let ?c = "company_name_of f" and ?l = "logo_filename_of f"
  let ?S = "[Emit (Log (SearchingLogo ?c)), ImageSearch (?c @ ustr '' logo'')]"
  have good: "set (phases (?S @ x)) \<subseteq> {2} \<and> progress_values (?S @ x) = []
       \<and> \<not> finished (?S @ x) \<and> logo_items (?S @ x) = [?c]"
    if "x \<in> {[], [Emit (Log NoImageFound)], [Download ?l],
              [Download ?l, Emit (Log LogoDownloaded)], [Download ?l, Emit (Log DownloadFailed)]}"
    for x
    using that
    by (auto simp: phases_Cons progress_values_Cons logo_items_Cons finished_def)
  from a have "\<exists>x \<in> {[], [Emit (Log NoImageFound)], [Download ?l],
              [Download ?l, Emit (Log LogoDownloaded)], [Download ?l, Emit (Log DownloadFailed)]}.
      trace w' = trace w @ ?S @ x \<and> out \<noteq> Returned"
    by (auto simp: acquire_logo_def Let_def split: sum.splits option.splits if_splits)
  then obtain x where "x \<in> {[], [Emit (Log NoImageFound)], [Download ?l],
              [Download ?l, Emit (Log LogoDownloaded)], [Download ?l, Emit (Log DownloadFailed)]}"
    and t: "trace w' = trace w @ (?S @ x)" and o: "out \<noteq> Returned" by auto
  from good [OF this(1)] t o show ?thesis by blast
qed

lemma phase2_loop_trace:
  "phase2_loop wk T items step w = (out, w') \<Longrightarrow>
    \<exists>evs j. trace w' = trace w @ evs \<and> j \<le> length items
      \<and> progress_values evs =
          map (\<lambda>k. progress_value (float_round wk) k T) [Suc step ..< Suc step + j]
      \<and> set (phases evs) \<subseteq> {2} \<and> \<not> finished evs
      \<and> (\<forall>s. out = Continue s \<longrightarrow>
            j = length items \<and> s = step + j \<and> logo_items evs = map company_name_of items)"
proof (induction items arbitrary: step w)
  case Nil
  then have "w' = w" "out = Continue step" by simp_all
  then have "trace w' = trace w @ [] \<and> (0::nat) \<le> length ([] :: ustring list)
      \<and> progress_values [] =
          map (\<lambda>k. progress_value (float_round wk) k T) [Suc step ..< Suc step + 0]
      \<and> set (phases []) \<subseteq> {2} \<and> \<not> finished []
      \<and> (\<forall>s. out = Continue s \<longrightarrow>
            0 = length ([] :: ustring list) \<and> s = step + 0
            \<and> logo_items [] = map company_name_of [])"
    by simp
  then show ?case by blast
next
  case (Cons f rest)
  let ?pv = "\<lambda>k. progress_value (float_round wk) k T"
  obtain b w1 where cr: "check_running w = (b, w1)" by (cases "check_running w") auto
  note t1 = check_running_trace [OF cr]
  have stop: ?case if "trace w' = trace w @ L" "set (phases L) \<subseteq> {2}" "progress_values L = []"
    "\<not> finished L" "\<forall>s. out \<noteq> Continue s" for L
  proof -
    from that have "trace w' = trace w @ L \<and> (0::nat) \<le> length (f # rest)
      \<and> progress_values L = map ?pv [Suc step ..< Suc step + 0]
      \<and> set (phases L) \<subseteq> {2} \<and> \<not> finished L
      \<and> (\<forall>s. out = Continue s \<longrightarrow>
            0 = length (f # rest) \<and> s = step + 0 \<and> logo_items L = map company_name_of (f # rest))"
      by simp
    then show ?thesis by blast
  qed
  show ?case
  proof (cases b)
    case False
    with Cons.prems cr have "out = Returned" "w' = w1" by simp_all
    with t1 show ?thesis by (intro stop [of "[]"]) simp_all
  next
    case True
    obtain o2 w2 where body: "(if file_exists (logo_filename_of f) w1
                 then (Continue (), emit (Log (LogoExists (company_name_of f))) w1)
                 else acquire_logo f w1) = (o2, w2)"
      by (cases "if file_exists (logo_filename_of f) w1
                 then (Continue (), emit (Log (LogoExists (company_name_of f))) w1)
                 else acquire_logo f w1") auto
    have "\<exists>L. trace w2 = trace w1 @ L \<and> set (phases L) \<subseteq> {2} \<and> progress_values L = []
       \<and> \<not> finished L \<and> logo_items L = [company_name_of f] \<and> o2 \<noteq> Returned"
    proof (cases "file_exists (logo_filename_of f) w1")
      case True
      with body have "w2 = emit (Log (LogoExists (company_name_of f))) w1" "o2 = Continue ()"
        by simp_all
      then have "trace w2 = trace w1 @ [Emit (Log (LogoExists (company_name_of f)))]
         \<and> set (phases [Emit (Log (LogoExists (company_name_of f)))]) \<subseteq> {2}
         \<and> progress_values [Emit (Log (LogoExists (company_name_of f)))] = []
         \<and> \<not> finished [Emit (Log (LogoExists (company_name_of f)))]
         \<and> logo_items [Emit (Log (LogoExists (company_name_of f)))] = [company_name_of f]
         \<and> o2 \<noteq> Returned"
        by (simp add: phases_Cons progress_values_Cons logo_items_Cons finished_def)
      then show ?thesis by blast
    next
      case False
      with body have "acquire_logo f w1 = (o2, w2)" by simp
      from acquire_logo_trace [OF this] show ?thesis .
    qed
    then obtain L where t2: "trace w2 = trace w1 @ L" and Lph: "set (phases L) \<subseteq> {2}"
      and Lp: "progress_values L = []" and Lf: "\<not> finished L"
      and Ll: "logo_items L = [company_name_of f]" and o2: "o2 \<noteq> Returned" by blast
    from o2 consider "o2 = Continue ()" | e where "o2 = Raised e" by (cases o2) auto
    then show ?thesis
    proof cases
      case 2
      with Cons.prems cr True body have "out = Raised e" "w' = w2" by simp_all
      with t1 t2 Lph Lp Lf show ?thesis by (intro stop [of L]) simp_all
    next
      case 1
      let ?w3 = "emit (Progress (?pv (Suc step))) w2"
      define M where "M = L @ [Emit (Progress (?pv (Suc step)))]"
      from 1 Cons.prems cr True body
      have rec: "phase2_loop wk T rest (Suc step) ?w3 = (out, w')" by (simp add: Let_def)
      have tm: "trace ?w3 = trace w @ M" using t1 t2 by (simp add: M_def)
      have Mp: "progress_values M = [?pv (Suc step)]"
        using Lp by (simp add: M_def progress_values_Cons)
      have Mph: "set (phases M) \<subseteq> {2}" using Lph by (simp add: M_def phases_Cons)
      have Ml: "logo_items M = [company_name_of f]" using Ll by (simp add: M_def logo_items_Cons)
      have Mf: "\<not> finished M" using Lf by (simp add: M_def finished_def)
      from Cons.IH [OF rec] obtain evs j where
        te: "trace w' = trace ?w3 @ evs" and j: "j \<le> length rest"
        and ep: "progress_values evs = map ?pv [Suc (Suc step) ..< Suc (Suc step) + j]"
        and eph: "set (phases evs) \<subseteq> {2}" and ef: "\<not> finished evs"
        and ec: "\<forall>s. out = Continue s \<longrightarrow>
            j = length rest \<and> s = Suc step + j \<and> logo_items evs = map company_name_of rest"
        by blast
      have up: "[Suc step ..< Suc step + Suc j] = Suc step # [Suc (Suc step) ..< Suc (Suc step) + j]"
        by (simp add: upt_conv_Cons)
      from te tm have 1: "trace w' = trace w @ (M @ evs)" by simp
      from j have 2: "Suc j \<le> length (f # rest)" by simp
      from Mp ep up have 3: "progress_values (M @ evs) = map ?pv [Suc step ..< Suc step + Suc j]"
        by simp
      from Mph eph have 4: "set (phases (M @ evs)) \<subseteq> {2}" by auto
      from Mf ef have 5: "\<not> finished (M @ evs)" by simp
      from ec Ml have 6: "\<forall>s. out = Continue s \<longrightarrow>
            Suc j = length (f # rest) \<and> s = step + Suc j
            \<and> logo_items (M @ evs) = map company_name_of (f # rest)" by auto
      from 1 2 3 4 5 6 show ?thesis by blast
    qed
  qed
qed

lemma build_html_trace:
  "\<exists>H. trace (build_html wk f w) = trace w @ H \<and> set (phases H) \<subseteq> {3}
     \<and> progress_values H = [] \<and> \<not> finished H \<and> length (html_items H) = 1"
proof -
  have "(\<exists>n c. trace (build_html wk f w) = trace w @ [WriteHtml n, Emit (Log (BuiltHtml c))])
     \<or> trace (build_html wk f w) = trace w @ [Emit (Log HtmlError)]"
    by (auto simp: build_html_def Let_def split: option.splits file_content.splits json.splits)
  then show ?thesis
  proof
    assume "\<exists>n c. trace (build_html wk f w) = trace w @ [WriteHtml n, Emit (Log (BuiltHtml c))]"
    then obtain n c where
      "trace (build_html wk f w) = trace w @ [WriteHtml n, Emit (Log (BuiltHtml c))]" by blast
    moreover have "set (phases [WriteHtml n, Emit (Log (BuiltHtml c))]) \<subseteq> {3}
     \<and> progress_values [WriteHtml n, Emit (Log (BuiltHtml c))] = []
     \<and> \<not> finished [WriteHtml n, Emit (Log (BuiltHtml c))]
     \<and> length (html_items [WriteHtml n, Emit (Log (BuiltHtml c))]) = 1"
      by (simp add: phases_Cons progress_values_Cons finished_def html_items_def)
    ultimately show ?thesis by blast
  next
    assume "trace (build_html wk f w) = trace w @ [Emit (Log HtmlError)]"
    moreover have "set (phases [Emit (Log HtmlError)]) \<subseteq> {3}
     \<and> progress_values [Emit (Log HtmlError)] = []
     \<and> \<not> finished [Emit (Log HtmlError)]
     \<and> length (html_items [Emit (Log HtmlError)]) = 1"
      by (simp add: phases_Cons progress_values_Cons finished_def html_items_def)
    ultimately show ?thesis by blast
  qed
qed

lemma phase3_loop_trace:
  "phase3_loop wk T items step w = (out, w') \<Longrightarrow>
    \<exists>evs j. trace w' = trace w @ evs \<and> j \<le> length items
      \<and> progress_values evs =
          map (\<lambda>k. progress_value (float_round wk) k T) [Suc step ..< Suc step + j]
      \<and> set (phases evs) \<subseteq> {3} \<and> \<not> finished evs
      \<and> (\<forall>e. out \<noteq> Raised e)
      \<and> (\<forall>s. out = Continue s \<longrightarrow>
            j = length items \<and> s = step + j \<and> length (html_items evs) = length items)"
proof (induction items arbitrary: step w)
  case Nil
  then have "w' = w" "out = Continue step" by simp_all
  then have "trace w' = trace w @ [] \<and> (0::nat) \<le> length ([] :: ustring list)
      \<and> progress_values [] =
          map (\<lambda>k. progress_value (float_round wk) k T) [Suc step ..< Suc step + 0]
      \<and> set (phases []) \<subseteq> {3} \<and> \<not> finished []
      \<and> (\<forall>e. out \<noteq> Raised e)
      \<and> (\<forall>s. out = Continue s \<longrightarrow>
            0 = length ([] :: ustring list) \<and> s = step + 0
            \<and> length (html_items []) = length ([] :: ustring list))"
    by simp
  then show ?case by blast
next
  case (Cons f rest)
  let ?pv = "\<lambda>k. progress_value (float_round wk) k T"
  obtain b w1 where cr: "check_running w = (b, w1)" by (cases "check_running w") auto
  note t1 = check_running_trace [OF cr]
  show ?case
  proof (cases b)
    case False
    with Cons.prems cr have "out = Returned" "w' = w1" by simp_all
    with t1 have "trace w' = trace w @ [] \<and> (0::nat) \<le> length (f # rest)
      \<and> progress_values [] = map ?pv [Suc step ..< Suc step + 0]
      \<and> set (phases []) \<subseteq> {3} \<and> \<not> finished []
      \<and> (\<forall>e. out \<noteq> Raised e)
      \<and> (\<forall>s. out = Continue s \<longrightarrow>
            0 = length (f # rest) \<and> s = step + 0
            \<and> length (html_items []) = length (f # rest))"
      by simp
    then show ?thesis by blast
  next
    case True
    let ?w2 = "build_html wk f w1"
    let ?w3 = "emit (Progress (?pv (Suc step))) ?w2"
    from build_html_trace [of wk f w1] obtain H where
      t2: "trace ?w2 = trace w1 @ H" and Hph: "set (phases H) \<subseteq> {3}"
      and Hp: "progress_values H = []" and Hf: "\<not> finished H"
      and Hh: "length (html_items H) = 1" by blast
    define M where "M = H @ [Emit (Progress (?pv (Suc step)))]"
    from True Cons.prems cr
    have rec: "phase3_loop wk T rest (Suc step) ?w3 = (out, w')" by (simp add: Let_def)
    have tm: "trace ?w3 = trace w @ M" using t1 t2 by (simp add: M_def)
    have Mp: "progress_values M = [?pv (Suc step)]"
      using Hp by (simp add: M_def progress_values_Cons)
    have Mph: "set (phases M) \<subseteq> {3}" using Hph by (simp add: M_def phases_Cons)
    have Mh: "length (html_items M) = 1" using Hh by (simp add: M_def html_items_def)
    have Mf: "\<not> finished M" using Hf by (simp add: M_def finished_def)
    from Cons.IH [OF rec] obtain evs j where
      te: "trace w' = trace ?w3 @ evs" and j: "j \<le> length rest"
      and ep: "progress_values evs = map ?pv [Suc (Suc step) ..< Suc (Suc step) + j]"
      and eph: "set (phases evs) \<subseteq> {3}" and ef: "\<not> finished evs"
      and enr: "\<forall>e. out \<noteq> Raised e"
      and ec: "\<forall>s. out = Continue s \<longrightarrow>
          j = length rest \<and> s = Suc step + j \<and> length (html_items evs) = length rest"
      by blast
    have up: "[Suc step ..< Suc step + Suc j] = Suc step # [Suc (Suc step) ..< Suc (Suc step) + j]"
      by (simp add: upt_conv_Cons)
    from te tm have 1: "trace w' = trace w @ (M @ evs)" by simp
    from j have 2: "Suc j \<le> length (f # rest)" by simp
    from Mp ep up have 3: "progress_values (M @ evs) = map ?pv [Suc step ..< Suc step + Suc j]"
      by simp
    from Mph eph have 4: "set (phases (M @ evs)) \<subseteq> {3}" by auto
    from Mf ef have 5: "\<not> finished (M @ evs)" by simp
    from ec Mh have 6: "\<forall>s. out = Continue s \<longrightarrow>
          Suc j = length (f # rest) \<and> s = step + Suc j
          \<and> length (html_items (M @ evs)) = length (f # rest)" by auto
    from 1 2 3 4 5 6 enr show ?thesis by blast
  qed
qed

end
